theory Spec2Isabelle
  imports Complex_Main "HOL-Library.AList"
begin

section \<open>Promotion billing and scheduling (r2/lib/promote.py)\<close>

text \<open>
  A shallow embedding of the billing, scheduling and lottery functions of
  \<^verbatim>\<open>r2/r2/lib/promote.py\<close>.

  Conventions of the embedding.
  \<^item> Money. The source keeps amounts in Python floats that hold decimal currency values
    and rounds them through \<^verbatim>\<open>Decimal(str(x)).quantize(Decimal('.01'), rounding=...)\<close>.
    Amounts are exact rationals here (\<^typ>\<open>rat\<close>), and the two rounding modes are
    written out on rationals. \<^verbatim>\<open>str\<close> prints a float with twelve significant
    digits and \<^verbatim>\<open>Decimal\<close> reads that decimal back exactly, so on amounts of at
    most twelve significant digits the rational arithmetic is the arithmetic of the code;
    binary rounding beyond that, infinities and NaN are outside the embedding.
  \<^item> Identifiers. A thing's \<^verbatim>\<open>_id\<close> is a natural number and its
    \<^verbatim>\<open>_fullname\<close> is identified with its id.
  \<^item> Attribute presence. \<^verbatim>\<open>hasattr(camp, 'cpm')\<close> and
    \<^verbatim>\<open>hasattr(camp, 'refund_amount')\<close> are optional fields.
\<close>

subsection \<open>Campaigns\<close>

text \<open>
  The attributes of a \<^verbatim>\<open>PromoCampaign\<close> that this module reads or writes.
  \<open>priority_cpm\<close> is \<^verbatim>\<open>campaign.priority.cpm\<close> (does the priority tier need a
  charge); \<open>cpm\<close> is the optional \<^verbatim>\<open>cpm\<close> attribute, the rate in pennies per
  thousand impressions. Dates are day numbers.
\<close>

record campaign =
  camp_id :: nat
  link_id :: nat
  owner_id :: nat
  sr_name :: string
  start_date :: int
  end_date :: int
  bid :: rat
  cpm :: "int option"
  priority_cpm :: bool
  trans_id :: int
  refund_amount :: "rat option"

subsection \<open>Links, schedule rows and subreddits\<close>

text \<open>
  Modelled from the spec: \<^verbatim>\<open>PROMOTE_STATUS\<close> is declared in \<^verbatim>\<open>r2.models\<close>,
  outside this module. The specification orders the statuses
  \<open>unpaid < unseen < accepted < promoted < finished\<close>, with \<open>rejected\<close> apart and
  \<open>pending\<close> the status a charged, accepted link waits in before it is promoted;
  \<open>status_rank\<close> is the position in the enumeration.
\<close>

datatype promote_status = unpaid | unseen | accepted | rejected | pending | promoted | finished

fun status_rank :: "promote_status \<Rightarrow> nat" where
  "status_rank unpaid = 0"
| "status_rank unseen = 1"
| "status_rank accepted = 2"
| "status_rank rejected = 3"
| "status_rank pending = 4"
| "status_rank promoted = 5"
| "status_rank finished = 6"

text \<open>
  A \<^verbatim>\<open>Link\<close>: \<open>l_promoted\<close> is \<^verbatim>\<open>link.promoted\<close> (which may be
  \<^verbatim>\<open>None\<close>) and \<open>l_promote_status\<close> the optional \<^verbatim>\<open>promote_status\<close>
  attribute.
\<close>

record link =
  l_id :: nat
  l_author_id :: nat
  l_deleted :: bool
  l_promoted :: "bool option"
  l_promote_status :: "promote_status option"
  l_over_18 :: bool

text \<open>A row of \<^verbatim>\<open>PromotionWeights\<close>: one campaign on one day.\<close>

record promotion_weight =
  pw_thing_name :: nat
  pw_promo_idx :: nat
  pw_sr_name :: string
  pw_date :: int
  pw_weight :: rat

record subreddit =
  s_id :: nat
  s_name :: string
  s_over_18 :: bool

text \<open>\<^verbatim>\<open>AdWeight(link, weight, campaign)\<close>, also the shape of a \<^verbatim>\<open>PromoTuple\<close>.\<close>

type_synonym adweight = "nat \<times> rat \<times> nat"

text \<open>
  The keys of the live ad weights: a subreddit id, the empty string that stands for
  the global audience, and the two reserved keys \<^verbatim>\<open>LiveAdWeights.FRONT_PAGE\<close> and
  \<^verbatim>\<open>LiveAdWeights.ALL_ADS\<close>.
\<close>

datatype audience_key = Sr nat | Global | FRONT_PAGE | ALL_ADS

subsection \<open>Exceptions, collaborators and the state of the world\<close>

datatype error =
    DataError
  | AuthorizeNetException
  | MissingTraffic int "int list"
  | NotFound
  | KeyError
  | AttributeError
  | ZeroDivisionError
  | ScheduleErrors "(nat \<times> error) list"

datatype gateway_outcome = Succeeded | Declined | Faulted

datatype gateway_request =
    ChargeRequest nat int nat
  | RefundRequest nat int nat rat

datatype log_entry =
    AuthCharge nat int
  | CompletedCpm nat rat int int
  | CompletedPreCpm nat rat
  | RefundFailed nat rat
  | Refunded nat rat int int rat

text \<open>
  Everything the module reads and writes outside itself, in one record: the clock
  (\<^verbatim>\<open>datetime.now(g.tz)\<close>, in whole hours), the stores of campaigns, links,
  subreddits and schedule rows, the payment gateway (the transactions it has charged,
  the requests it has received, and how it answers), the traffic collaborator, the
  query of underdelivered campaigns, the promotion log, the live ad weights and the
  health timestamp. Notification and hook calls change none of these and are left out.
\<close>

record world =
  clock :: int
  campaigns :: "campaign list"
  links :: "link list"
  subreddits :: "subreddit list"
  promo_weights :: "promotion_weight list"
  charged :: "(int \<times> nat) list"
  gateway_requests :: "gateway_request list"
  is_charged_fault :: "int \<Rightarrow> nat \<Rightarrow> bool"
  charge_outcome :: "int \<Rightarrow> nat \<Rightarrow> gateway_outcome"
  refund_outcome :: "int \<Rightarrow> nat \<Rightarrow> rat \<Rightarrow> gateway_outcome"
  missing_traffic :: "int \<Rightarrow> int \<Rightarrow> int list"
  promotion_history :: "nat \<Rightarrow> int \<Rightarrow> int \<Rightarrow> (int \<times> int) list"
  underdelivered :: "nat set"
  promotion_log :: "(nat \<times> log_entry) list"
  live_adweights :: "audience_key \<Rightarrow> adweight list option"
  promos_updated :: "int option"

subsection \<open>Dictionaries\<close>

text \<open>
  A Python \<^verbatim>\<open>dict\<close> built from pairs: a later pair overwrites an earlier one
  with the same key.
\<close>

definition dict :: "('k \<times> 'v) list \<Rightarrow> ('k \<times> 'v) list" where
  "dict ps = fold (\<lambda>(k, v). AList.update k v) ps []"

subsection \<open>Status tests\<close>

definition is_promo :: "link \<Rightarrow> bool" where
  "is_promo l = (\<not> l_deleted l \<and> l_promoted l \<noteq> None \<and> l_promote_status l \<noteq> None)"

definition is_accepted :: "link \<Rightarrow> bool" where
  "is_accepted l =
     (is_promo l \<and> l_promote_status l \<noteq> Some rejected \<and>
      (case l_promote_status l of
         Some s \<Rightarrow> status_rank accepted \<le> status_rank s
       | None \<Rightarrow> False))"

definition is_promoted :: "link \<Rightarrow> bool" where
  "is_promoted l = (is_promo l \<and> l_promote_status l = Some promoted)"

subsection \<open>Collaborators\<close>

text \<open>
  \<^verbatim>\<open>promo_datetime_now(offset)\<close>: the clock moved by the fixed offset of five
  hours, and by \<open>offset\<close> days when an offset is given. \<open>to_date\<close> is the day an hour
  lies in and \<open>midnight\<close> the first hour of a day.
\<close>

definition promo_datetime_now :: "int option \<Rightarrow> world \<Rightarrow> int" where
  "promo_datetime_now offset w =
     (let now = clock w - 5
      in case offset of None \<Rightarrow> now | Some d \<Rightarrow> now + 24 * d)"

definition to_date :: "int \<Rightarrow> int" where
  "to_date t = t div 24"

definition midnight :: "int \<Rightarrow> int" where
  "midnight d = 24 * d"

text \<open>
  Modelled from the spec: \<^verbatim>\<open>PromotionWeights.get_campaigns\<close> (in
  \<^verbatim>\<open>r2.models\<close>) is the Campaign Store's query of schedule rows by date range: the
  rows of the day of \<open>start\<close>, or, when an end is given, the rows from the day of
  \<open>start\<close> up to the day of the end.
\<close>

definition get_campaigns :: "int \<Rightarrow> int option \<Rightarrow> world \<Rightarrow> promotion_weight list" where
  "get_campaigns start end w =
     (case end of
        None \<Rightarrow> [p \<leftarrow> promo_weights w. pw_date p = to_date start]
      | Some e \<Rightarrow> [p \<leftarrow> promo_weights w. to_date start \<le> pw_date p \<and> pw_date p < to_date e])"

text \<open>
  Modelled from the spec: the Payment Gateway of \<^verbatim>\<open>r2.lib.authorize\<close>.
  \<^verbatim>\<open>is_charged_transaction\<close> answers whether the gateway has charged the
  transaction of the campaign, or raises on a record it cannot read;
  \<^verbatim>\<open>charge_transaction\<close> and \<^verbatim>\<open>refund_transaction\<close> record the request
  and answer as the gateway decides (\<open>charge_outcome\<close>, \<open>refund_outcome\<close>): success,
  a decline (the call returns false) or a fault (the call raises). A transaction the
  gateway has charged is reported as charged from then on.
\<close>

definition is_charged_transaction :: "int \<Rightarrow> nat \<Rightarrow> world \<Rightarrow> error + bool" where
  "is_charged_transaction t c w =
     (if is_charged_fault w t c then Inl DataError else Inr ((t, c) \<in> set (charged w)))"

definition charge_transaction :: "nat \<Rightarrow> int \<Rightarrow> nat \<Rightarrow> world \<Rightarrow> (error + bool) \<times> world" where
  "charge_transaction user t c w =
     (let w' = w\<lparr>gateway_requests := gateway_requests w @ [ChargeRequest user t c]\<rparr>
      in case charge_outcome w t c of
           Faulted \<Rightarrow> (Inl AuthorizeNetException, w')
         | Declined \<Rightarrow> (Inr False, w')
         | Succeeded \<Rightarrow> (Inr True, w'\<lparr>charged := charged w' @ [(t, c)]\<rparr>))"


text \<open>
  Modelled from the spec: \<^verbatim>\<open>set_promote_status\<close>,
  \<^verbatim>\<open>set_underdelivered_campaigns\<close> and \<^verbatim>\<open>unset_underdelivered_campaigns\<close>
  (in \<^verbatim>\<open>r2.lib.db.queries\<close>) store the new status on the link, and add the
  campaigns to, or take the campaign from, the campaigns marked as underdelivered.
  \<^verbatim>\<open>PromotionLog.add\<close> appends an entry to the audit log of the link.
\<close>

definition set_promote_status :: "link \<Rightarrow> promote_status \<Rightarrow> world \<Rightarrow> world" where
  "set_promote_status l status w =
     w\<lparr>links := map (\<lambda>x. if l_id x = l_id l then x\<lparr>l_promote_status := Some status\<rparr> else x)
                    (links w)\<rparr>"

definition set_underdelivered_campaigns :: "campaign list \<Rightarrow> world \<Rightarrow> world" where
  "set_underdelivered_campaigns camps w =
     w\<lparr>underdelivered := underdelivered w \<union> set (map camp_id camps)\<rparr>"


definition promotion_log_add :: "nat \<Rightarrow> log_entry \<Rightarrow> world \<Rightarrow> world" where
  "promotion_log_add l entry w = w\<lparr>promotion_log := promotion_log w @ [(l, entry)]\<rparr>"

text \<open>
  A thing read from a store is an object that later writes go through; \<open>link_now\<close> is
  the present state of a link object, and \<open>commit_campaign\<close> is
  \<^verbatim>\<open>camp._commit()\<close> after an assignment to an attribute of the campaign.
\<close>

definition link_now :: "link \<Rightarrow> world \<Rightarrow> link" where
  "link_now l w = (case find (\<lambda>x. l_id x = l_id l) (links w) of Some x \<Rightarrow> x | None \<Rightarrow> l)"

definition commit_campaign :: "campaign \<Rightarrow> world \<Rightarrow> world" where
  "commit_campaign camp w =
     w\<lparr>campaigns := map (\<lambda>x. if camp_id x = camp_id camp then camp else x) (campaigns w)\<rparr>"

subsection \<open>The scheduling pass\<close>

text \<open>
  \<^verbatim>\<open>accepted_campaigns(offset)\<close>: the generator's yields, in order. A schedule row
  is passed over when its campaign is not among the campaigns of the accepted links,
  or when the campaign has no transaction and its priority needs a charge.
\<close>

definition accepted_campaigns :: "int \<Rightarrow> world \<Rightarrow> (link \<times> campaign \<times> rat) list" where
  "accepted_campaigns offset w =
     (let now = promo_datetime_now (Some offset) w;
          promo_weights = get_campaigns now None w;
          all_links = [l \<leftarrow> links w. l_id l \<in> pw_thing_name ` set promo_weights];
          accepted_links = dict [(l_id l, l). l \<leftarrow> all_links, is_accepted l];
          accepted_link_ids = map fst accepted_links;
          campaign_query = [c \<leftarrow> campaigns w. link_id c \<in> set accepted_link_ids];
          camps = dict [(camp_id c, c). c \<leftarrow> campaign_query]
      in concat (map (\<lambda>pw.
           case map_of camps (pw_promo_idx pw) of
             None \<Rightarrow> []
           | Some campaign \<Rightarrow>
               if trans_id campaign = 0 \<and> priority_cpm campaign then []
               else (case map_of accepted_links (link_id campaign) of
                       None \<Rightarrow> []
                     | Some l \<Rightarrow> [(l, campaign, pw_weight pw)]))
         promo_weights))"

text \<open>
  \<^verbatim>\<open>charged_or_not_needed(campaign)\<close>: the gateway is asked first, so its
  exception reaches the caller whatever the priority.
\<close>

definition charged_or_not_needed :: "campaign \<Rightarrow> world \<Rightarrow> error + bool" where
  "charged_or_not_needed campaign w =
     (case is_charged_transaction (trans_id campaign) (camp_id campaign) w of
        Inl e \<Rightarrow> Inl e
      | Inr was_charged \<Rightarrow>
          (let needs_charge = priority_cpm campaign in Inr (was_charged \<or> \<not> needs_charge)))"

text \<open>
  \<^verbatim>\<open>get_scheduled(offset)\<close>: the ad weights of the campaigns that are charged or
  need no charge, and the campaigns whose check raised, with the exception.
\<close>

definition get_scheduled_step ::
  "link \<times> campaign \<times> rat \<Rightarrow> world \<Rightarrow> adweight list \<times> (nat \<times> error) list
     \<Rightarrow> adweight list \<times> (nat \<times> error) list" where
  "get_scheduled_step y w acc =
     (case y of (l, campaign, weight) \<Rightarrow>
      case acc of (adweights, error_campaigns) \<Rightarrow>
      case charged_or_not_needed campaign w of
        Inl e \<Rightarrow> (adweights, error_campaigns @ [(camp_id campaign, e)])
      | Inr ok \<Rightarrow>
          (if ok then (adweights @ [(l_id l, weight, camp_id campaign)], error_campaigns)
           else (adweights, error_campaigns)))"

definition get_scheduled :: "int \<Rightarrow> world \<Rightarrow> adweight list \<times> (nat \<times> error) list" where
  "get_scheduled offset w =
     fold (\<lambda>y. get_scheduled_step y w) (accepted_campaigns offset w) ([], [])"

subsection \<open>Charging\<close>

text \<open>
  One turn of the loop of \<^verbatim>\<open>charge_pending\<close>. The bare \<^verbatim>\<open>except\<close> swallows
  every exception of the turn; a charge that the gateway declines ends the turn too.
  The account of the link's author is named by its id (the lookup
  \<^verbatim>\<open>Account._byID\<close> is taken to succeed).
\<close>

definition charge_one :: "link \<Rightarrow> campaign \<Rightarrow> world \<Rightarrow> world" where
  "charge_one l camp w =
     (let user = l_author_id l
      in case charged_or_not_needed camp w of
           Inl e \<Rightarrow> w
         | Inr True \<Rightarrow> w
         | Inr False \<Rightarrow>
             (case charge_transaction user (trans_id camp) (camp_id camp) w of
                (Inl e, w') \<Rightarrow> w'
              | (Inr False, w') \<Rightarrow> w'
              | (Inr True, w') \<Rightarrow>
                  (let w'' = (if is_promoted (link_now l w') then w'
                              else set_promote_status l pending w')
                   in promotion_log_add (l_id l)
                        (AuthCharge (camp_id camp) (trans_id camp)) w'')))"

fun charge_each :: "(link \<times> campaign \<times> rat) list \<Rightarrow> world \<Rightarrow> world" where
  "charge_each [] w = w"
| "charge_each ((l, camp, weight) # rest) w = charge_each rest (charge_one l camp w)"

definition charge_pending :: "int \<Rightarrow> world \<Rightarrow> world" where
  "charge_pending offset w = charge_each (accepted_campaigns offset w) w"

subsection \<open>Rounding to the cent\<close>

text \<open>
  \<^verbatim>\<open>quantize(Decimal('.01'), rounding=ROUND_DOWN)\<close> truncates towards zero and
  \<^verbatim>\<open>ROUND_UP\<close> rounds away from zero, both to two decimal places.
\<close>

definition quantize_down :: "rat \<Rightarrow> rat" where
  "quantize_down x =
     (if 0 \<le> x then of_int \<lfloor>x * 100\<rfloor> / 100 else of_int \<lceil>x * 100\<rceil> / 100)"


text \<open>
  The specification's words: an amount rounded down (up) to the smallest currency unit,
  and an amount that is a whole number of cents.
\<close>

definition floor_cent :: "rat \<Rightarrow> rat" where
  "floor_cent x = of_int \<lfloor>x * 100\<rfloor> / 100"

definition ceil_cent :: "rat \<Rightarrow> rat" where
  "ceil_cent x = of_int \<lceil>x * 100\<rceil> / 100"

definition whole_cents :: "rat \<Rightarrow> bool" where
  "whole_cents x = (of_int \<lfloor>x * 100\<rfloor> = x * 100)"

subsection \<open>Billable amount and refund amount\<close>

text \<open>
  \<^verbatim>\<open>get_billable_amount(camp, impressions)\<close>: the value delivered at the campaign's
  rate, capped at the bid, for a campaign with a \<^verbatim>\<open>cpm\<close> attribute; the bid for a
  campaign without one; in both cases quantized with \<^verbatim>\<open>ROUND_DOWN\<close>.
\<close>

definition get_billable_amount :: "campaign \<Rightarrow> int \<Rightarrow> rat" where
  "get_billable_amount camp impressions =
     (let billable_amount =
        (case cpm camp of
           Some rate \<Rightarrow>
             (let value_delivered = of_int impressions / 1000 * of_int rate / 100
              in min (bid camp) value_delivered)
         | None \<Rightarrow> bid camp)
      in quantize_down billable_amount)"



text \<open>Two campaigns used to evaluate the functions: the specification's example
  (bid 100.00 at 500 pennies per thousand) and a campaign whose bid is not a whole
  number of cents and that has no \<^verbatim>\<open>cpm\<close> attribute.\<close>

definition camp_example :: campaign where
  "camp_example = \<lparr> camp_id = 1, link_id = 1, owner_id = 1, sr_name = [],
     start_date = 10, end_date = 12, bid = 100, cpm = Some 500, priority_cpm = True,
     trans_id = 7, refund_amount = None \<rparr>"

definition camp_half_cent :: campaign where
  "camp_half_cent = \<lparr> camp_id = 2, link_id = 1, owner_id = 1, sr_name = [],
     start_date = 10, end_date = 12, bid = 2001 / 200, cpm = None, priority_cpm = False,
     trans_id = 8, refund_amount = None \<rparr>"

definition camp_flat :: campaign where
  "camp_flat = \<lparr> camp_id = 3, link_id = 2, owner_id = 1, sr_name = [],
     start_date = 10, end_date = 12, bid = 50, cpm = None, priority_cpm = False,
     trans_id = 9, refund_amount = None \<rparr>"

subsection \<open>Delivery and finalization\<close>

text \<open>
  \<^verbatim>\<open>get_total_run(thing)\<close> for a campaign: its own run if it is charged or needs
  no charge, the last thirty days otherwise (\<^verbatim>\<open>datetime.utcnow()\<close> is the
  clock), both moved by the fixed offset. Campaign dates are midnights, so the whole
  hours of the clock decide every comparison as the full time does.
  \<^verbatim>\<open>get_traffic_dates\<close> cuts the run at the present hour, and
  \<^verbatim>\<open>get_billable_impressions\<close> adds up the impressions that the traffic
  collaborator reports for it.
\<close>

definition get_total_run :: "campaign \<Rightarrow> world \<Rightarrow> error + (int \<times> int)" where
  "get_total_run campaign w =
     (case charged_or_not_needed campaign w of
        Inl e \<Rightarrow> Inl e
      | Inr ok \<Rightarrow>
          (let run = (if ok then (midnight (start_date campaign), midnight (end_date campaign))
                      else (clock w - 24 * 30, clock w))
           in Inr (fst run + 5, snd run + 5)))"

definition get_traffic_dates :: "campaign \<Rightarrow> world \<Rightarrow> error + (int \<times> int)" where
  "get_traffic_dates campaign w =
     (let now = clock w
      in case get_total_run campaign w of
           Inl e \<Rightarrow> Inl e
         | Inr (start, end) \<Rightarrow> Inr (start, min now end))"

definition get_billable_impressions :: "campaign \<Rightarrow> world \<Rightarrow> error + int" where
  "get_billable_impressions campaign w =
     (case get_traffic_dates campaign w of
        Inl e \<Rightarrow> Inl e
      | Inr (start, end) \<Rightarrow>
          if clock w < start then Inr 0
          else (let imps = promotion_history w (camp_id campaign) start end
                in Inr (sum_list (map snd imps))))"

text \<open>
  \<^verbatim>\<open>finalize_completed_campaigns(daysago)\<close>. \<open>finalize_date\<close> is the day that
  ended \<open>daysago\<close> days ago and \<open>finalize_query\<close> the campaigns that ended on it with
  a real transaction; \<open>earliest\<close> is \<^verbatim>\<open>min(campaigns, key=start_date)\<close>, the first
  campaign of the least start date. The links of the campaigns
  (\<^verbatim>\<open>Link._byID\<close>, taken to succeed) serve the log only and are named by their ids.
\<close>

definition finalize_date :: "int \<Rightarrow> world \<Rightarrow> int" where
  "finalize_date daysago w = to_date (clock w - 24 * daysago)"

definition finalize_query :: "int \<Rightarrow> world \<Rightarrow> campaign list" where
  "finalize_query daysago w =
     [camp \<leftarrow> campaigns w. end_date camp = finalize_date daysago w \<and> 0 < trans_id camp]"

fun earliest :: "campaign \<Rightarrow> campaign list \<Rightarrow> campaign" where
  "earliest c [] = c"
| "earliest c (x # xs) = earliest (if start_date x < start_date c then x else c) xs"

text \<open>
  The loop over the campaigns, with the list \<^verbatim>\<open>underdelivered_campaigns\<close> it
  accumulates. A campaign that has a refund amount is passed over; an exception of
  \<^verbatim>\<open>get_billable_impressions\<close> ends the loop where it stands.
\<close>

fun finalize_loop :: "campaign list \<Rightarrow> campaign list \<Rightarrow> world \<Rightarrow> error option \<times> world" where
  "finalize_loop [] underdelivered_campaigns w = (None, w)"
| "finalize_loop (camp # rest) underdelivered_campaigns w =
     (if refund_amount camp \<noteq> None then finalize_loop rest underdelivered_campaigns w
      else
        case get_billable_impressions camp w of
          Inl e \<Rightarrow> (Some e, w)
        | Inr billable_impressions \<Rightarrow>
            (let billable_amount = get_billable_amount camp billable_impressions
             in if bid camp \<le> billable_amount then
                  (let entry = (case cpm camp of
                                  Some rate \<Rightarrow> CompletedCpm (camp_id camp) billable_amount
                                                 billable_impressions rate
                                | None \<Rightarrow> CompletedPreCpm (camp_id camp) billable_amount);
                       w1 = promotion_log_add (link_id camp) entry w;
                       w2 = commit_campaign (camp\<lparr>refund_amount := Some 0\<rparr>) w1;
                       w3 = (if underdelivered_campaigns \<noteq> []
                             then set_underdelivered_campaigns underdelivered_campaigns w2
                             else w2)
                   in finalize_loop rest underdelivered_campaigns w3)
                else
                  (let und = underdelivered_campaigns @ [camp];
                       w1 = set_underdelivered_campaigns und w
                   in finalize_loop rest und w1)))"

definition finalize_completed_campaigns :: "int \<Rightarrow> world \<Rightarrow> error option \<times> world" where
  "finalize_completed_campaigns daysago w =
     (let date = midnight (finalize_date daysago w);
          camps = finalize_query daysago w
      in case camps of
           [] \<Rightarrow> (None, w)
         | c # cs \<Rightarrow>
             (let earliest_campaign = earliest c cs
              in case get_total_run earliest_campaign w of
                   Inl e \<Rightarrow> (Some e, w)
                 | Inr (start, end) \<Rightarrow>
                     (let missing = missing_traffic w start date
                      in if missing \<noteq> [] then (Some (MissingTraffic date missing), w)
                         else finalize_loop camps [] w)))"


subsection \<open>A small world\<close>

text \<open>
  One accepted link with four campaigns: the example campaign, which ended on day 12,
  and three campaigns scheduled on day 13, of which one is authorized and needs a
  charge, one has no transaction yet and one is flat-priced at a bid of zero. The clock
  stands at noon of day 13.
\<close>

definition link_a :: link where
  "link_a = \<lparr> l_id = 1, l_author_id = 5, l_deleted = False, l_promoted = Some True,
     l_promote_status = Some accepted, l_over_18 = False \<rparr>"

definition camp_live :: campaign where
  "camp_live = \<lparr> camp_id = 4, link_id = 1, owner_id = 5, sr_name = [],
     start_date = 13, end_date = 15, bid = 30, cpm = Some 500, priority_cpm = True,
     trans_id = 11, refund_amount = None \<rparr>"

definition camp_unpaid :: campaign where
  "camp_unpaid = \<lparr> camp_id = 5, link_id = 1, owner_id = 5, sr_name = [],
     start_date = 13, end_date = 15, bid = 20, cpm = Some 500, priority_cpm = True,
     trans_id = 0, refund_amount = None \<rparr>"

definition camp_house :: campaign where
  "camp_house = \<lparr> camp_id = 6, link_id = 1, owner_id = 5, sr_name = [],
     start_date = 13, end_date = 15, bid = 0, cpm = None, priority_cpm = False,
     trans_id = 0, refund_amount = None \<rparr>"

definition row :: "nat \<Rightarrow> nat \<Rightarrow> string \<Rightarrow> int \<Rightarrow> rat \<Rightarrow> promotion_weight" where
  "row l c sr d wt = \<lparr> pw_thing_name = l, pw_promo_idx = c, pw_sr_name = sr, pw_date = d,
     pw_weight = wt \<rparr>"

definition world0 :: world where
  "world0 = \<lparr> clock = 324,
     campaigns = [camp_example, camp_live, camp_unpaid, camp_house],
     links = [link_a],
     subreddits = [],
     promo_weights = [row 1 4 [] 13 30, row 1 5 [] 13 20, row 1 6 [] 13 0],
     charged = [],
     gateway_requests = [],
     is_charged_fault = (\<lambda>t c. False),
     charge_outcome = (\<lambda>t c. Succeeded),
     refund_outcome = (\<lambda>t c a. Succeeded),
     missing_traffic = (\<lambda>s e. []),
     promotion_history = (\<lambda>c s e. if c = 1 then [(s, 15000)] else []),
     underdelivered = {},
     promotion_log = [],
     live_adweights = (\<lambda>k. None),
     promos_updated = None \<rparr>"

text \<open>
  The same world with the transaction of the example campaign charged, so that the
  campaign's own run is its billing window; then with a traffic collaborator that
  reports a gap, and with a gateway that faults on refunds.
\<close>

definition world_fin :: world where
  "world_fin = world0\<lparr>charged := [(7, 1)]\<rparr>"

definition world_gap :: world where
  "world_gap = world_fin\<lparr>missing_traffic := (\<lambda>s e. [s])\<rparr>"


subsection \<open>What a finalize pass leaves behind\<close>

text \<open>
  The specification's words for the outcome of a pass: a campaign is fully delivered
  when its billable amount reaches its bid, and \<open>close_delivered cs w\<close> is the record a
  completed pass over the campaigns \<open>cs\<close> leaves in the store: the refund amount 0 on
  the campaigns of \<open>cs\<close> that had none and are fully delivered, every other record as
  it was.
\<close>

definition fully_delivered :: "campaign \<Rightarrow> world \<Rightarrow> bool" where
  "fully_delivered camp w =
     (case get_billable_impressions camp w of
        Inl e \<Rightarrow> False
      | Inr imps \<Rightarrow> bid camp \<le> get_billable_amount camp imps)"

definition close_delivered :: "campaign list \<Rightarrow> world \<Rightarrow> campaign \<Rightarrow> campaign" where
  "close_delivered cs w x =
     (if x \<in> set cs \<and> refund_amount x = None \<and> fully_delivered x w
      then x\<lparr>refund_amount := Some 0\<rparr> else x)"

text \<open>
  A world in which two campaigns ended on day 12: the example campaign, which delivered
  three quarters of its bid, and the flat campaign.
\<close>

definition world_two :: world where
  "world_two = world0\<lparr>campaigns := [camp_example, camp_flat], charged := [(7, 1), (9, 3)]\<rparr>"

subsection \<open>The live ad weights\<close>

text \<open>
  Modelled from the spec: \<^verbatim>\<open>Subreddit._by_name\<close> and \<^verbatim>\<open>LiveAdWeights\<close> are
  in \<^verbatim>\<open>r2.models\<close>. \<open>subreddits_by_name\<close> is the dictionary from each of the
  names that has a subreddit to that subreddit; a name without one is left out.
  \<open>live_get\<close> answers, for each audience asked for, the list published for it (none
  is the empty list; the caller's empty string reads the front page's list).
  \<open>set_all_from_weights\<close> publishes a mapping: each audience of the mapping gets its
  new list in one step, an audience outside the mapping keeps the list it had (the
  case that \<^verbatim>\<open>set_live_promotions\<close> guards against), and the aggregate key holds
  all the lists of the mapping together.
\<close>

definition subreddits_by_name :: "string list \<Rightarrow> world \<Rightarrow> (string \<times> subreddit) list" where
  "subreddits_by_name names w = dict [(s_name sr, sr). sr \<leftarrow> subreddits w, s_name sr \<in> set names]"

definition live_get :: "audience_key list \<Rightarrow> world \<Rightarrow> (audience_key \<times> adweight list) list" where
  "live_get srids w =
     [(k, case live_adweights w (if k = Global then FRONT_PAGE else k) of
            Some l \<Rightarrow> l | None \<Rightarrow> []). k \<leftarrow> remdups srids]"

definition set_all_from_weights :: "(audience_key \<times> adweight list) list \<Rightarrow> world \<Rightarrow> world" where
  "set_all_from_weights all_weights w =
     w\<lparr>live_adweights :=
         (live_adweights w ++ map_of all_weights)(ALL_ADS \<mapsto> concat (map snd all_weights))\<rparr>"

text \<open>
  \<^verbatim>\<open>set_live_promotions(weights)\<close>. \<open>all_weights\<close> is the dictionary of that name
  as it stands when it is handed to \<^verbatim>\<open>LiveAdWeights.set_all_from_weights\<close>: an
  empty list for every subreddit that the names of the schedule rows of yesterday,
  today and tomorrow resolve to, then the entries of \<open>weights\<close> over them, then the
  entry of the empty string moved to the front page's key.
\<close>

definition all_weights ::
  "(audience_key \<times> adweight list) list \<Rightarrow> world \<Rightarrow> (audience_key \<times> adweight list) list" where
  "all_weights weights w =
     (let today = promo_datetime_now None w;
          yesterday = today - 24;
          tomorrow = today + 24;
          promo_weights = get_campaigns yesterday (Some tomorrow) w;
          subreddit_names = remdups (map pw_sr_name promo_weights);
          srs = map snd (subreddits_by_name subreddit_names w);
          defaults = dict [(Sr (s_id sr), []). sr \<leftarrow> srs];
          updated = fold (\<lambda>(k, v). AList.update k v) weights defaults
      in case map_of updated Global of
           Some front \<Rightarrow> AList.update FRONT_PAGE front (AList.delete Global updated)
         | None \<Rightarrow> updated)"

definition set_live_promotions :: "(audience_key \<times> adweight list) list \<Rightarrow> world \<Rightarrow> world" where
  "set_live_promotions weights w = set_all_from_weights (all_weights weights w) w"

definition mark_promos_updated :: "world \<Rightarrow> world" where
  "mark_promos_updated w = w\<lparr>promos_updated := Some (clock w)\<rparr>"



subsection \<open>The daily pass\<close>

text \<open>
  Modelled from the spec: \<^verbatim>\<open>Link._by_fullname\<close> and
  \<^verbatim>\<open>PromoCampaign._by_fullname\<close> are the Campaign Store's lookup by full name:
  the dictionary of the things named, or \<^verbatim>\<open>NotFound\<close> when one of them is
  missing.
\<close>

definition links_by_fullname :: "nat list \<Rightarrow> world \<Rightarrow> error + (nat \<times> link) list" where
  "links_by_fullname names w =
     (if \<forall>n \<in> set names. \<exists>l \<in> set (links w). l_id l = n
      then Inr (dict [(l_id l, l). l \<leftarrow> links w, l_id l \<in> set names])
      else Inl NotFound)"

definition campaigns_by_fullname :: "nat list \<Rightarrow> world \<Rightarrow> error + (nat \<times> campaign) list" where
  "campaigns_by_fullname names w =
     (if \<forall>n \<in> set names. \<exists>c \<in> set (campaigns w). camp_id c = n
      then Inr (dict [(camp_id c, c). c \<leftarrow> campaigns w, camp_id c \<in> set names])
      else Inl NotFound)"

text \<open>
  \<^verbatim>\<open>link.over_18 = True; link._commit()\<close>, and one turn of the loop over the
  expired links.
\<close>

definition set_over_18 :: "link \<Rightarrow> world \<Rightarrow> world" where
  "set_over_18 l w =
     w\<lparr>links := map (\<lambda>x. if l_id x = l_id l then x\<lparr>l_over_18 := True\<rparr> else x) (links w)\<rparr>"

definition expire_link :: "bool \<Rightarrow> link \<Rightarrow> world \<Rightarrow> world" where
  "expire_link test l w =
     (if is_promoted (link_now l w) \<and> \<not> test then set_promote_status l finished w else w)"

text \<open>
  The loop over the scheduled ad weights, which fills \<^verbatim>\<open>by_srid\<close>: a subscript
  of a dictionary that has no such key raises \<^verbatim>\<open>KeyError\<close>.
\<close>

fun place_adweights ::
  "adweight list \<Rightarrow> bool \<Rightarrow> (nat \<times> link) list \<Rightarrow> (nat \<times> campaign) list
     \<Rightarrow> (string \<times> subreddit) list \<Rightarrow> (audience_key \<times> adweight list) list \<Rightarrow> world
     \<Rightarrow> (error + (audience_key \<times> adweight list) list) \<times> world" where
  "place_adweights [] test ls cs srs by_srid w = (Inr by_srid, w)"
| "place_adweights (adweight # rest) test ls cs srs by_srid w =
     (case map_of ls (fst adweight) of
        None \<Rightarrow> (Inl KeyError, w)
      | Some l \<Rightarrow>
     (case map_of cs (snd (snd adweight)) of
        None \<Rightarrow> (Inl KeyError, w)
      | Some campaign \<Rightarrow>
     (case (if sr_name campaign \<noteq> []
            then (case map_of srs (sr_name campaign) of
                    None \<Rightarrow> Inl KeyError
                  | Some sr \<Rightarrow> Inr (Sr (s_id sr), s_over_18 sr))
            else Inr (Global, False)) of
        Inl e \<Rightarrow> (Inl e, w)
      | Inr (sr_id, sr_over_18) \<Rightarrow>
          (let w1 = (if sr_over_18 \<and> \<not> test then set_over_18 l w else w);
               w2 = (if is_accepted (link_now l w1) \<and> \<not> is_promoted (link_now l w1) \<and> \<not> test
                     then set_promote_status l promoted w1 else w1);
               old = (case map_of by_srid sr_id of Some xs \<Rightarrow> xs | None \<Rightarrow> [])
           in place_adweights rest test ls cs srs
                (AList.update sr_id (old @ [adweight]) by_srid) w2))))"

text \<open>
  \<^verbatim>\<open>make_daily_promotions(offset, test)\<close>. \<open>launch_scheduled\<close> is the part from
  the read of the current ad weights to the end of the loop that fills
  \<^verbatim>\<open>by_srid\<close>; the rest publishes (unless \<open>test\<close>), finalizes and at last raises
  the exception that carries the error campaigns.
\<close>

definition launch_scheduled ::
  "adweight list \<Rightarrow> bool \<Rightarrow> world \<Rightarrow> (error + (audience_key \<times> adweight list) list) \<times> world" where
  "launch_scheduled scheduled_adweights test w =
     (let current_adweights = (case live_adweights w ALL_ADS of Some xs \<Rightarrow> xs | None \<Rightarrow> []);
          link_names = map fst (scheduled_adweights @ current_adweights);
          camp_names = map (snd \<circ> snd) (scheduled_adweights @ current_adweights)
      in case links_by_fullname link_names w of
           Inl e \<Rightarrow> (Inl e, w)
         | Inr ls \<Rightarrow>
      (case campaigns_by_fullname camp_names w of
           Inl e \<Rightarrow> (Inl e, w)
         | Inr cs \<Rightarrow>
          (let srs = subreddits_by_name [sr_name camp. camp \<leftarrow> map snd cs, sr_name camp \<noteq> []] w;
               expired_links = remdups [fst aw. aw \<leftarrow> current_adweights,
                                          fst aw \<notin> fst ` set scheduled_adweights];
               expired = [l. n \<leftarrow> expired_links, l \<leftarrow> (case map_of ls n of Some l \<Rightarrow> [l] | None \<Rightarrow> [])];
               w1 = fold (expire_link test) expired w
           in place_adweights scheduled_adweights test ls cs srs [] w1)))"

definition make_daily_promotions :: "int \<Rightarrow> bool \<Rightarrow> world \<Rightarrow> error option \<times> world" where
  "make_daily_promotions offset test w =
     (case get_scheduled offset w of (scheduled_adweights, error_campaigns) \<Rightarrow>
      case launch_scheduled scheduled_adweights test w of
        (Inl e, w1) \<Rightarrow> (Some e, w1)
      | (Inr by_srid, w1) \<Rightarrow>
          (let w2 = (if \<not> test then mark_promos_updated (set_live_promotions by_srid w1) else w1)
           in case finalize_completed_campaigns (offset + 1) w2 of
                (Some e, w3) \<Rightarrow> (Some e, w3)
              | (None, w3) \<Rightarrow>
                  if error_campaigns \<noteq> [] then (Some (ScheduleErrors error_campaigns), w3)
                  else (None, w3)))"

text \<open>
  The small world with a campaign record that the gateway cannot read, and the world
  with the coverage gap with the same record.
\<close>

definition world_err :: world where
  "world_err = world0\<lparr>is_charged_fault := (\<lambda>t c. c = 4)\<rparr>"

definition world_gap_err :: world where
  "world_gap_err = world_gap\<lparr>is_charged_fault := (\<lambda>t c. c = 4)\<rparr>"

subsection \<open>The lottery\<close>

text \<open>
  \<^verbatim>\<open>get_promotion_list(srids)\<close>: the live entries of the audiences asked for, with
  weights divided by their total. The division is reached for each entry, so a total
  of zero raises as soon as there is an entry.
\<close>

definition get_promotion_list :: "audience_key list \<Rightarrow> world \<Rightarrow> error + adweight list" where
  "get_promotion_list srids w =
     (let weights = live_get srids w
      in if weights = [] then Inr []
         else
           (let promos = concat [sr_weights. (sr_id, sr_weights) \<leftarrow> weights, sr_id \<in> set srids];
                total = sum_list (map (\<lambda>(l, weight, campaign). weight) promos)
            in if promos \<noteq> [] \<and> total = 0 then Inl ZeroDivisionError
               else Inr [(l, weight / total, campaign). (l, weight, campaign) \<leftarrow> promos]))"

text \<open>
  \<^verbatim>\<open>lottery_promoted_links(srids, n)\<close>. \<^verbatim>\<open>weighted_lottery\<close> is in
  \<^verbatim>\<open>r2.lib.utils\<close> and is a parameter here: the function that draws a key from a
  dictionary of weights. \<^verbatim>\<open>del weights[s]\<close> raises \<^verbatim>\<open>KeyError\<close> when the key
  drawn is not in the dictionary.
\<close>

lemma delete_shorter: "s \<in> fst ` set al \<Longrightarrow> length (AList.delete s al) < length al"
  by (auto simp: AList.delete_eq intro: length_filter_less)

function lottery_loop ::
  "((adweight \<times> rat) list \<Rightarrow> adweight) \<Rightarrow> (adweight \<times> rat) list \<Rightarrow> adweight list \<Rightarrow> int
     \<Rightarrow> error + adweight list" where
  "lottery_loop weighted_lottery weights selected n =
     (if weights \<noteq> [] \<and> int (length selected) < n then
        (let s = weighted_lottery weights
         in if s \<in> fst ` set weights
            then lottery_loop weighted_lottery (AList.delete s weights) (selected @ [s]) n
            else Inl KeyError)
      else Inr selected)"
  by pat_completeness auto
termination
  by (relation "measure (\<lambda>(f, weights, selected, n). length weights)")
     (auto simp: delete_shorter)

definition lottery_promoted_links ::
  "audience_key list \<Rightarrow> int \<Rightarrow> ((adweight \<times> rat) list \<Rightarrow> adweight) \<Rightarrow> world
     \<Rightarrow> error + adweight list" where
  "lottery_promoted_links srids n weighted_lottery w =
     (case get_promotion_list srids w of
        Inl e \<Rightarrow> Inl e
      | Inr promo_tuples \<Rightarrow>
          (let weights = dict [(p, fst (snd p)). p \<leftarrow> promo_tuples, fst (snd p) \<noteq> 0]
           in lottery_loop weighted_lottery weights [] n))"

text \<open>
  A world whose only live entry for subreddit 21 has weight zero, and one with three
  entries there, one of weight zero.
\<close>

definition world_zero :: world where
  "world_zero = world0\<lparr>live_adweights := (\<lambda>k. if k = Sr 21 then Some [(1, 0, 6)] else None)\<rparr>"

definition world_three :: world where
  "world_three = world0\<lparr>live_adweights :=
     (\<lambda>k. if k = Sr 21 then Some [(1, 30, 4), (1, 0, 6), (2, 10, 3)] else None)\<rparr>"

section \<open>Properties\<close>

subsection \<open>Rounding\<close>

lemma floor_cent_le: "floor_cent x \<le> x"
proof -
  have "of_int \<lfloor>x * 100\<rfloor> \<le> x * 100" by (rule of_int_floor_le)
  then show ?thesis by (simp add: floor_cent_def divide_le_eq)
qed

lemma floor_cent_mono: "x \<le> y \<Longrightarrow> floor_cent x \<le> floor_cent y"
proof -
  assume "x \<le> y"
  then have "\<lfloor>x * 100\<rfloor> \<le> \<lfloor>y * 100\<rfloor>" by (intro floor_mono) simp
  then show ?thesis by (simp add: floor_cent_def divide_right_mono)
qed



lemma whole_cents_obtain: "whole_cents x \<Longrightarrow> \<exists>n. x * 100 = of_int n"
  unfolding whole_cents_def by (rule exI[of _ "\<lfloor>x * 100\<rfloor>"]) (rule sym)

lemma ceil_cent_whole: "whole_cents x \<Longrightarrow> ceil_cent x = x"
proof -
  assume "whole_cents x"
  then obtain n where n: "x * 100 = of_int n" using whole_cents_obtain by blast
  have "ceil_cent x = of_int n / 100" by (simp add: ceil_cent_def n)
  also have "\<dots> = x" using n by simp
  finally show ?thesis .
qed

lemma floor_cent_whole: "whole_cents x \<Longrightarrow> floor_cent x = x"
proof -
  assume "whole_cents x"
  then obtain n where n: "x * 100 = of_int n" using whole_cents_obtain by blast
  have "floor_cent x = of_int n / 100" by (simp add: floor_cent_def n)
  also have "\<dots> = x" using n by simp
  finally show ?thesis .
qed

lemma quantize_down_nonneg: "0 \<le> x \<Longrightarrow> quantize_down x = floor_cent x"
  by (simp add: quantize_down_def floor_cent_def)

lemma quantize_down_whole: "whole_cents x \<Longrightarrow> quantize_down x = x"
proof -
  assume w: "whole_cents x"
  then have "floor_cent x = x" "ceil_cent x = x"
    by (simp_all add: floor_cent_whole ceil_cent_whole)
  then show ?thesis by (simp add: quantize_down_def floor_cent_def ceil_cent_def)
qed




subsection \<open>Billable amount\<close>

text \<open>
  C3, as stated, fails where the campaign has no \<^verbatim>\<open>cpm\<close> attribute and its
  bid is not a whole number of cents: the bid passes through the same
  \<^verbatim>\<open>ROUND_DOWN\<close> quantization as the capped value, so a bid of 10.005 is billed
  as 10.00, not as the full bid.
\<close>

theorem get_billable_amount_flat_counterexample:
  "get_billable_amount camp_half_cent 0 = 10 \<and> bid camp_half_cent = 2001 / 200
   \<and> get_billable_amount camp_half_cent 0 \<noteq> bid camp_half_cent"
  by code_simp

text \<open>
  C3 (amended). For every campaign with a non-negative bid and all impression counts
  \<open>0 \<le> imps \<le> imps'\<close>: if the campaign has a (non-negative) cpm rate,
  \<open>get_billable_amount\<close> is \<open>min(bid, imps/1000 \<times> rate/100)\<close> rounded down to the
  cent, it is monotonically non-decreasing in the impressions and it never exceeds the
  bid; if the campaign has no cpm rate, it is the bid rounded down to the cent whatever
  the impressions, which is the full bid when the bid is a whole number of cents.
\<close>

theorem get_billable_amount_cents:
  assumes "0 \<le> bid camp" and "0 \<le> imps" and "imps \<le> imps'"
  shows "(case cpm camp of
            Some rate \<Rightarrow> 0 \<le> rate \<longrightarrow>
               get_billable_amount camp imps
                 = floor_cent (min (bid camp) (of_int imps / 1000 * of_int rate / 100))
             \<and> get_billable_amount camp imps \<le> get_billable_amount camp imps'
             \<and> get_billable_amount camp imps \<le> bid camp
          | None \<Rightarrow> get_billable_amount camp imps = floor_cent (bid camp)
                  \<and> (whole_cents (bid camp) \<longrightarrow> get_billable_amount camp imps = bid camp))"
proof (cases "cpm camp")
  case None
  then show ?thesis using assms(1)
    by (simp add: get_billable_amount_def quantize_down_nonneg floor_cent_whole)
next
  case (Some rate)
  define v where "v i = (of_int i / 1000 * of_int rate / 100 :: rat)" for i :: int
  have eq: "get_billable_amount camp i = quantize_down (min (bid camp) (v i))" for i
    by (simp add: get_billable_amount_def Some v_def)
  show ?thesis
  proof (simp only: Some option.case, intro impI conjI)
    assume r: "0 \<le> rate"
    have v0: "0 \<le> v i" if "0 \<le> i" for i using that r by (simp add: v_def)
    have m0: "0 \<le> min (bid camp) (v i)" if "0 \<le> i" for i using that v0 assms(1) by simp
    have "0 \<le> imps'" using assms by simp
    have mono: "v imps \<le> v imps'"
      using assms(3) r by (simp add: v_def divide_right_mono mult_right_mono)
    show "get_billable_amount camp imps
                 = floor_cent (min (bid camp) (of_int imps / 1000 * of_int rate / 100))"
      using m0[OF assms(2)] by (simp add: eq quantize_down_nonneg v_def)
    show "get_billable_amount camp imps \<le> get_billable_amount camp imps'"
      using m0[OF assms(2)] m0[OF \<open>0 \<le> imps'\<close>] mono
      by (simp add: eq quantize_down_nonneg floor_cent_mono min.coboundedI2)
    have "floor_cent (min (bid camp) (v imps)) \<le> min (bid camp) (v imps)"
      by (rule floor_cent_le)
    then show "get_billable_amount camp imps \<le> bid camp"
      using m0[OF assms(2)] by (simp add: eq quantize_down_nonneg)
  qed
qed


theorem get_billable_amount_cents_witness:
  "get_billable_amount camp_example 15000 = 75
   \<and> get_billable_amount camp_example 15000 \<le> get_billable_amount camp_example 30000
   \<and> get_billable_amount camp_example 15000 \<le> bid camp_example
   \<and> get_billable_amount camp_flat 15000 = bid camp_flat"
proof -
  have cents: "whole_cents (bid camp_flat)"
    by (simp add: whole_cents_def camp_flat_def)
  have "floor_cent (min (bid camp_example) (of_int 15000 / 1000 * of_int 500 / 100)) = 75"
    by (simp add: floor_cent_def camp_example_def)
  then show ?thesis
    using get_billable_amount_cents [of camp_example 15000 30000]
      get_billable_amount_cents [of camp_flat 15000 15000] cents
    by (simp add: camp_example_def camp_flat_def)
qed

subsection \<open>Refund amount\<close>





subsection \<open>The scheduling pass\<close>

lemma map_of_fold_update:
  "map_of (fold (\<lambda>(k, v). AList.update k v) ps acc) k = Some v
   \<Longrightarrow> (k, v) \<in> set ps \<or> map_of acc k = Some v"
proof (induction ps arbitrary: acc)
  case Nil
  then show ?case by simp
next
  case (Cons p ps)
  obtain k' v' where p: "p = (k', v')" by (cases p)
  from Cons.prems have "map_of (fold (\<lambda>(k, v). AList.update k v) ps (AList.update k' v' acc)) k = Some v"
    by (simp add: p)
  from Cons.IH[OF this] show ?case
    by (auto simp: p update_conv' split: if_splits)
qed

lemma map_of_dict: "map_of (dict ps) k = Some v \<Longrightarrow> (k, v) \<in> set ps"
  using map_of_fold_update[of ps "[]" k v] by (simp add: dict_def)

lemma accepted_campaigns_yield:
  assumes "(l, c, wt) \<in> set (accepted_campaigns off w)"
  shows "c \<in> set (campaigns w) \<and> \<not> (trans_id c = 0 \<and> priority_cpm c)"
proof -
  define pws where "pws = get_campaigns (promo_datetime_now (Some off) w) None w"
  define al where "al = dict [(l_id l, l). l \<leftarrow> [l \<leftarrow> links w. l_id l \<in> pw_thing_name ` set pws],
                                is_accepted l]"
  define camps where "camps = dict [(camp_id c, c). c \<leftarrow> [c \<leftarrow> campaigns w. link_id c \<in> set (map fst al)]]"
  define body where "body = (\<lambda>pw :: promotion_weight. case map_of camps (pw_promo_idx pw) of
             None \<Rightarrow> []
           | Some campaign \<Rightarrow>
               if trans_id campaign = 0 \<and> priority_cpm campaign then []
               else (case map_of al (link_id campaign) of
                       None \<Rightarrow> []
                     | Some l \<Rightarrow> [(l, campaign, pw_weight pw)]))"
  have "accepted_campaigns off w = concat (map body pws)"
    by (simp only: accepted_campaigns_def Let_def pws_def al_def camps_def body_def)
  with assms obtain pw where "(l, c, wt) \<in> set (body pw)" by auto
  then have look: "map_of camps (pw_promo_idx pw) = Some c"
    and paid: "\<not> (trans_id c = 0 \<and> priority_cpm c)"
    by (auto simp: body_def split: option.splits if_splits)
  from map_of_dict[OF look[unfolded camps_def]] have "c \<in> set (campaigns w)" by auto
  with paid show ?thesis by simp
qed

lemma get_scheduled_fold:
  "fold (\<lambda>y. get_scheduled_step y w) ys acc = (aws, errs) \<Longrightarrow>
   (snd \<circ> snd) ` set aws \<subseteq> (snd \<circ> snd) ` set (fst acc) \<union> (\<lambda>(l, c, wt). camp_id c) ` set ys
   \<and> fst ` set errs \<subseteq> fst ` set (snd acc) \<union> (\<lambda>(l, c, wt). camp_id c) ` set ys"
proof (induction ys arbitrary: acc)
  case Nil
  then show ?case by auto
next
  case (Cons y ys)
  obtain l c wt where y: "y = (l, c, wt)" by (cases y)
  obtain a e where acc: "acc = (a, e)" by (cases acc)
  define acc' where "acc' = get_scheduled_step y w acc"
  have step: "(snd \<circ> snd) ` set (fst acc') \<subseteq> (snd \<circ> snd) ` set a \<union> {camp_id c}"
             "fst ` set (snd acc') \<subseteq> fst ` set e \<union> {camp_id c}"
    by (auto simp: acc'_def get_scheduled_step_def y acc split: sum.splits if_splits)
  from Cons.prems have "fold (\<lambda>y. get_scheduled_step y w) ys acc' = (aws, errs)"
    by (simp add: acc'_def)
  from Cons.IH[OF this]
  have ih: "(snd \<circ> snd) ` set aws \<subseteq> (snd \<circ> snd) ` set (fst acc') \<union> (\<lambda>(l, c, wt). camp_id c) ` set ys"
       "fst ` set errs \<subseteq> fst ` set (snd acc') \<union> (\<lambda>(l, c, wt). camp_id c) ` set ys"
    by simp_all
  have ys: "(\<lambda>(l, c, wt). camp_id c) ` set (y # ys)
            = insert (camp_id c) ((\<lambda>(l, c, wt). camp_id c) ` set ys)"
    by (simp add: y)
  have "(snd \<circ> snd) ` set aws \<subseteq> (snd \<circ> snd) ` set (fst acc) \<union> (\<lambda>(l, c, wt). camp_id c) ` set (y # ys)"
    unfolding ys using ih(1) step(1) by (simp add: acc) blast
  moreover have "fst ` set errs \<subseteq> fst ` set (snd acc) \<union> (\<lambda>(l, c, wt). camp_id c) ` set (y # ys)"
    unfolding ys using ih(2) step(2) by (simp add: acc) blast
  ultimately show ?case by simp
qed

text \<open>
  C8. A campaign of the store (campaign ids are unique there) that has no transaction
  id and whose priority needs a charge is passed over by the scheduling pass: whatever
  schedule rows name it, it is the campaign of none of the returned ad weights, and
  the list of error campaigns has no entry for it.
\<close>

theorem get_scheduled_skips_unpaid:
  assumes "distinct (map camp_id (campaigns w))"
    and "c \<in> set (campaigns w)" and "trans_id c = 0" and "priority_cpm c"
  shows "camp_id c \<notin> (snd \<circ> snd) ` set (fst (get_scheduled off w))
       \<and> camp_id c \<notin> fst ` set (snd (get_scheduled off w))"
proof -
  have no_yield: "camp_id c \<notin> (\<lambda>(l, c, wt). camp_id c) ` set (accepted_campaigns off w)"
  proof
    assume "camp_id c \<in> (\<lambda>(l, c, wt). camp_id c) ` set (accepted_campaigns off w)"
    then obtain l c' wt where y: "(l, c', wt) \<in> set (accepted_campaigns off w)"
      and id: "camp_id c' = camp_id c" by auto
    from accepted_campaigns_yield[OF y]
    have c': "c' \<in> set (campaigns w)" and paid: "\<not> (trans_id c' = 0 \<and> priority_cpm c')"
      by simp_all
    have "inj_on camp_id (set (campaigns w))" using assms(1) by (simp add: distinct_map)
    then have "c' = c" using c' assms(2) id by (auto dest: inj_onD)
    with paid assms(3,4) show False by simp
  qed
  obtain aws errs where g: "get_scheduled off w = (aws, errs)" by (cases "get_scheduled off w")
  then have "fold (\<lambda>y. get_scheduled_step y w) (accepted_campaigns off w) ([], []) = (aws, errs)"
    by (simp add: get_scheduled_def)
  from get_scheduled_fold[OF this] no_yield show ?thesis
    by (auto simp: g)
qed

theorem get_scheduled_skips_unpaid_witness:
  "get_scheduled 0 world0 = ([(1, 0, 6)], [])
   \<and> pw_promo_idx (row 1 5 [] 13 20) = camp_id camp_unpaid
   \<and> row 1 5 [] 13 20 \<in> set (promo_weights world0)
   \<and> camp_id camp_unpaid \<notin> (snd \<circ> snd) ` set (fst (get_scheduled 0 world0))
   \<and> camp_id camp_unpaid \<notin> fst ` set (snd (get_scheduled 0 world0))"
proof -
  have "distinct (map camp_id (campaigns world0))" "camp_unpaid \<in> set (campaigns world0)"
    "trans_id camp_unpaid = 0" "priority_cpm camp_unpaid"
    by (simp_all add: world0_def camp_example_def camp_live_def camp_unpaid_def camp_house_def)
  from get_scheduled_skips_unpaid [OF this, of 0]
  have "camp_id camp_unpaid \<notin> (snd \<circ> snd) ` set (fst (get_scheduled 0 world0))
       \<and> camp_id camp_unpaid \<notin> fst ` set (snd (get_scheduled 0 world0))" .
  moreover have "get_scheduled 0 world0 = ([(1, 0, 6)], [])" by code_simp
  moreover have "pw_promo_idx (row 1 5 [] 13 20) = camp_id camp_unpaid"
    "row 1 5 [] 13 20 \<in> set (promo_weights world0)"
    by (simp_all add: row_def camp_unpaid_def world0_def)
  ultimately show ?thesis by blast
qed

subsection \<open>Charging\<close>

lemma charge_one_unfold:
  "charge_one l camp w =
     (if is_charged_fault w (trans_id camp) (camp_id camp)
         \<or> (trans_id camp, camp_id camp) \<in> set (charged w) \<or> \<not> priority_cpm camp
      then w
      else let w' = w\<lparr>gateway_requests := gateway_requests w
                       @ [ChargeRequest (l_author_id l) (trans_id camp) (camp_id camp)]\<rparr>
           in case charge_outcome w (trans_id camp) (camp_id camp) of
                Faulted \<Rightarrow> w'
              | Declined \<Rightarrow> w'
              | Succeeded \<Rightarrow>
                  (let w'' = w'\<lparr>charged := charged w' @ [(trans_id camp, camp_id camp)]\<rparr>
                   in promotion_log_add (l_id l) (AuthCharge (camp_id camp) (trans_id camp))
                        (if is_promoted (link_now l w'') then w''
                         else set_promote_status l pending w'')))"
  by (cases "charge_outcome w (trans_id camp) (camp_id camp)")
     (simp_all add: charge_one_def charged_or_not_needed_def is_charged_transaction_def
      charge_transaction_def Let_def)

lemma charge_one_effect:
  "(charged (charge_one l camp w) = charged w
      \<and> gateway_requests (charge_one l camp w) = gateway_requests w
    \<or> (trans_id camp, camp_id camp) \<notin> set (charged w) \<and> priority_cpm camp
      \<and> gateway_requests (charge_one l camp w)
          = gateway_requests w @ [ChargeRequest (l_author_id l) (trans_id camp) (camp_id camp)]
      \<and> (charged (charge_one l camp w) = charged w
          \<or> charged (charge_one l camp w) = charged w @ [(trans_id camp, camp_id camp)]))
   \<and> campaigns (charge_one l camp w) = campaigns w"
  by (cases "charge_outcome w (trans_id camp) (camp_id camp)")
     (simp_all add: charge_one_unfold promotion_log_add_def set_promote_status_def Let_def)

lemma charge_one_charged_mono: "set (charged w) \<subseteq> set (charged (charge_one l camp w))"
  using charge_one_effect[of l camp w] by auto

lemma charge_one_count:
  "count_list (charged (charge_one l camp w)) p \<le> max 1 (count_list (charged w) p)"
proof -
  consider "charged (charge_one l camp w) = charged w"
    | "(trans_id camp, camp_id camp) \<notin> set (charged w)"
      "charged (charge_one l camp w) = charged w @ [(trans_id camp, camp_id camp)]"
    using charge_one_effect[of l camp w] by blast
  then show ?thesis
  proof cases
    case 1
    then show ?thesis by simp
  next
    case 2
    then show ?thesis by (cases "p = (trans_id camp, camp_id camp)") (simp_all add: count_list_0_iff)
  qed
qed

lemma charge_each_campaigns: "campaigns (charge_each ys w) = campaigns w"
  by (induction ys w rule: charge_each.induct) (simp_all add: charge_one_effect)

lemma charge_each_charged_mono: "set (charged w) \<subseteq> set (charged (charge_each ys w))"
proof (induction ys w rule: charge_each.induct)
  case (1 w)
  then show ?case by simp
next
  case (2 l camp weight rest w)
  then show ?case using charge_one_charged_mono[of w l camp] by auto
qed

lemma charge_each_count:
  "count_list (charged (charge_each ys w)) p \<le> max 1 (count_list (charged w) p)"
proof (induction ys w rule: charge_each.induct)
  case (1 w)
  then show ?case by simp
next
  case (2 l camp weight rest w)
  have "count_list (charged (charge_each rest (charge_one l camp w))) p
          \<le> max 1 (count_list (charged (charge_one l camp w)) p)" by (rule 2)
  also have "\<dots> \<le> max 1 (max 1 (count_list (charged w) p))"
    using charge_one_count[of l camp w p] by simp
  finally show ?case by simp
qed

lemma charge_each_requests:
  "\<exists>new. gateway_requests (charge_each ys w) = gateway_requests w @ new
     \<and> (\<forall>r \<in> set new. \<exists>(l, c, wt) \<in> set ys.
           r = ChargeRequest (l_author_id l) (trans_id c) (camp_id c)
           \<and> priority_cpm c \<and> (trans_id c, camp_id c) \<notin> set (charged w))"
proof (induction ys w rule: charge_each.induct)
  case (1 w)
  then show ?case by simp
next
  case (2 l camp weight rest w)
  define w1 where "w1 = charge_one l camp w"
  from 2[folded w1_def] obtain new where
    new: "gateway_requests (charge_each rest w1) = gateway_requests w1 @ new"
    and each: "\<forall>r \<in> set new. \<exists>(l, c, wt) \<in> set rest.
           r = ChargeRequest (l_author_id l) (trans_id c) (camp_id c)
           \<and> priority_cpm c \<and> (trans_id c, camp_id c) \<notin> set (charged w1)"
    by blast
  have mono: "set (charged w) \<subseteq> set (charged w1)"
    unfolding w1_def by (rule charge_one_charged_mono)
  from each mono have each': "\<forall>r \<in> set new. \<exists>(l, c, wt) \<in> set ((l, camp, weight) # rest).
           r = ChargeRequest (l_author_id l) (trans_id c) (camp_id c)
           \<and> priority_cpm c \<and> (trans_id c, camp_id c) \<notin> set (charged w)"
    by fastforce
  consider "gateway_requests w1 = gateway_requests w"
    | "(trans_id camp, camp_id camp) \<notin> set (charged w)" "priority_cpm camp"
      "gateway_requests w1
          = gateway_requests w @ [ChargeRequest (l_author_id l) (trans_id camp) (camp_id camp)]"
    using charge_one_effect[of l camp w] unfolding w1_def by blast
  then show ?case
  proof cases
    case 1
    then have "gateway_requests (charge_each ((l, camp, weight) # rest) w) = gateway_requests w @ new"
      using new by (simp add: w1_def)
    with each' show ?thesis by blast
  next
    case 2
    let ?r = "ChargeRequest (l_author_id l) (trans_id camp) (camp_id camp)"
    have "gateway_requests (charge_each ((l, camp, weight) # rest) w)
            = gateway_requests w @ (?r # new)"
      using new 2(3) by (simp add: w1_def)
    moreover have "\<forall>r \<in> set (?r # new). \<exists>(l, c, wt) \<in> set ((l, camp, weight) # rest).
           r = ChargeRequest (l_author_id l) (trans_id c) (camp_id c)
           \<and> priority_cpm c \<and> (trans_id c, camp_id c) \<notin> set (charged w)"
      using each' 2(1,2) by auto
    ultimately show ?thesis by blast
  qed
qed

lemma charge_pending_requests:
  "\<exists>new. gateway_requests (charge_pending off w) = gateway_requests w @ new
     \<and> (\<forall>r \<in> set new. \<exists>c \<in> set (campaigns w). \<exists>u.
           r = ChargeRequest u (trans_id c) (camp_id c)
           \<and> priority_cpm c \<and> (trans_id c, camp_id c) \<notin> set (charged w))"
proof -
  from charge_each_requests[of "accepted_campaigns off w" w] obtain new where
    new: "gateway_requests (charge_pending off w) = gateway_requests w @ new"
    and each: "\<forall>r \<in> set new. \<exists>(l, c, wt) \<in> set (accepted_campaigns off w).
           r = ChargeRequest (l_author_id l) (trans_id c) (camp_id c)
           \<and> priority_cpm c \<and> (trans_id c, camp_id c) \<notin> set (charged w)"
    unfolding charge_pending_def by blast
  have "\<forall>r \<in> set new. \<exists>c \<in> set (campaigns w). \<exists>u.
           r = ChargeRequest u (trans_id c) (camp_id c)
           \<and> priority_cpm c \<and> (trans_id c, camp_id c) \<notin> set (charged w)"
  proof
    fix r assume "r \<in> set new"
    with each obtain l c wt where y: "(l, c, wt) \<in> set (accepted_campaigns off w)"
      and r: "r = ChargeRequest (l_author_id l) (trans_id c) (camp_id c)"
         "priority_cpm c" "(trans_id c, camp_id c) \<notin> set (charged w)"
      by blast
    from accepted_campaigns_yield[OF y] have "c \<in> set (campaigns w)" by simp
    with r show "\<exists>c \<in> set (campaigns w). \<exists>u.
           r = ChargeRequest u (trans_id c) (camp_id c)
           \<and> priority_cpm c \<and> (trans_id c, camp_id c) \<notin> set (charged w)" by blast
  qed
  with new show ?thesis by blast
qed

text \<open>
  C6. Two runs of \<open>charge_pending\<close> in succession, on a store with unique campaign
  ids and a gateway that reports a transaction as charged once it has charged it:
  a campaign whose transaction is charged after the first run (by that run or before)
  gets no charge request in the second run; over both runs no transaction is charged
  a second time (a transaction enters the gateway's list of charged transactions at
  most once, and only when it was not there); and a campaign whose priority needs no
  charge (flat-priced) gets no charge request at all.
\<close>

theorem charge_pending_twice:
  assumes ids: "distinct (map camp_id (campaigns w))"
  shows "(\<forall>t c u. (t, c) \<in> set (charged (charge_pending off w)) \<longrightarrow>
            count_list (gateway_requests (charge_pending off (charge_pending off w)))
                       (ChargeRequest u t c)
              = count_list (gateway_requests (charge_pending off w)) (ChargeRequest u t c))
       \<and> (\<forall>p. count_list (charged (charge_pending off (charge_pending off w))) p
                \<le> max 1 (count_list (charged w) p))
       \<and> (\<forall>c \<in> set (campaigns w). \<not> priority_cpm c \<longrightarrow>
            (\<forall>u t. count_list (gateway_requests (charge_pending off (charge_pending off w)))
                       (ChargeRequest u t (camp_id c))
                   = count_list (gateway_requests w) (ChargeRequest u t (camp_id c))))"
proof -
  define w1 where "w1 = charge_pending off w"
  define w2 where "w2 = charge_pending off w1"
  have camps1: "campaigns w1 = campaigns w"
    by (simp add: w1_def charge_pending_def charge_each_campaigns)
  obtain n1 where n1: "gateway_requests w1 = gateway_requests w @ n1"
    and e1: "\<forall>r \<in> set n1. \<exists>c \<in> set (campaigns w). \<exists>u.
           r = ChargeRequest u (trans_id c) (camp_id c)
           \<and> priority_cpm c \<and> (trans_id c, camp_id c) \<notin> set (charged w)"
    using charge_pending_requests[of off w] unfolding w1_def by blast
  obtain n2 where n2: "gateway_requests w2 = gateway_requests w1 @ n2"
    and e2: "\<forall>r \<in> set n2. \<exists>c \<in> set (campaigns w). \<exists>u.
           r = ChargeRequest u (trans_id c) (camp_id c)
           \<and> priority_cpm c \<and> (trans_id c, camp_id c) \<notin> set (charged w1)"
    using charge_pending_requests[of off w1] unfolding w2_def camps1 by blast
  have a: "count_list (gateway_requests w2) (ChargeRequest u t c)
             = count_list (gateway_requests w1) (ChargeRequest u t c)"
    if "(t, c) \<in> set (charged w1)" for t c u
  proof -
    have "ChargeRequest u t c \<notin> set n2" using e2 that by auto
    then show ?thesis by (simp add: n2 count_list_0_iff)
  qed
  have b: "count_list (charged w2) p \<le> max 1 (count_list (charged w) p)" for p
  proof -
    have "count_list (charged w2) p \<le> max 1 (count_list (charged w1) p)"
      unfolding w2_def charge_pending_def by (rule charge_each_count)
    also have "\<dots> \<le> max 1 (max 1 (count_list (charged w) p))"
      using charge_each_count[of "accepted_campaigns off w" w p]
      unfolding w1_def charge_pending_def by simp
    finally show ?thesis by simp
  qed
  have inj: "inj_on camp_id (set (campaigns w))" using ids by (simp add: distinct_map)
  have c: "count_list (gateway_requests w2) (ChargeRequest u t (camp_id c))
             = count_list (gateway_requests w) (ChargeRequest u t (camp_id c))"
    if "c \<in> set (campaigns w)" "\<not> priority_cpm c" for c u t
  proof -
    have "ChargeRequest u t (camp_id c) \<notin> set n"
      if "\<forall>r \<in> set n. \<exists>c \<in> set (campaigns w). \<exists>u. \<exists>s.
           r = ChargeRequest u (trans_id c) (camp_id c) \<and> priority_cpm c \<and> s" for n
    proof
      assume "ChargeRequest u t (camp_id c) \<in> set n"
      with that obtain c' where c': "c' \<in> set (campaigns w)" "camp_id c' = camp_id c"
        "priority_cpm c'" by auto
      with inj \<open>c \<in> set (campaigns w)\<close> have "c' = c" by (auto dest: inj_onD)
      with c'(3) \<open>\<not> priority_cpm c\<close> show False by simp
    qed
    then have "ChargeRequest u t (camp_id c) \<notin> set n1" "ChargeRequest u t (camp_id c) \<notin> set n2"
      using e1 e2 by blast+
    then show ?thesis by (simp add: n1 n2 count_list_0_iff)
  qed
  show ?thesis using a b c unfolding w1_def w2_def by blast
qed

theorem charge_pending_twice_witness:
  "charged (charge_pending 0 world0) = [(11, 4)]
   \<and> gateway_requests (charge_pending 0 world0) = [ChargeRequest 5 11 4]
   \<and> gateway_requests (charge_pending 0 (charge_pending 0 world0)) = [ChargeRequest 5 11 4]
   \<and> count_list (gateway_requests (charge_pending 0 (charge_pending 0 world0)))
         (ChargeRequest 5 11 4)
       = count_list (gateway_requests (charge_pending 0 world0)) (ChargeRequest 5 11 4)
   \<and> count_list (charged (charge_pending 0 (charge_pending 0 world0))) (11, 4)
       \<le> max 1 (count_list (charged world0) (11, 4))
   \<and> count_list (gateway_requests (charge_pending 0 (charge_pending 0 world0)))
         (ChargeRequest 5 0 (camp_id camp_house))
       = count_list (gateway_requests world0) (ChargeRequest 5 0 (camp_id camp_house))"
proof -
  have ids: "distinct (map camp_id (campaigns world0))"
    by (simp add: world0_def camp_example_def camp_live_def camp_unpaid_def camp_house_def)
  have ch: "charged (charge_pending 0 world0) = [(11, 4)]" by code_simp
  have r1: "gateway_requests (charge_pending 0 world0) = [ChargeRequest 5 11 4]" by code_simp
  have r2: "gateway_requests (charge_pending 0 (charge_pending 0 world0)) = [ChargeRequest 5 11 4]"
    by code_simp
  have house: "camp_house \<in> set (campaigns world0)" "\<not> priority_cpm camp_house"
    by (simp_all add: world0_def camp_house_def)
  have "(11, 4) \<in> set (charged (charge_pending 0 world0))" by (simp add: ch)
  with charge_pending_twice [OF ids, of 0] house ch r1 r2 show ?thesis by blast
qed

subsection \<open>Finalization\<close>

lemma gbi_cong:
  assumes "clock w' = clock w" "charged w' = charged w"
    "is_charged_fault w' = is_charged_fault w" "promotion_history w' = promotion_history w"
  shows "get_billable_impressions c w' = get_billable_impressions c w"
  using assms
  by (simp add: get_billable_impressions_def get_traffic_dates_def get_total_run_def
      charged_or_not_needed_def is_charged_transaction_def)

lemma gbi_log [simp]:
  "get_billable_impressions c (promotion_log_add l e w) = get_billable_impressions c w"
  by (rule gbi_cong) (simp_all add: promotion_log_add_def)

lemma gbi_commit [simp]:
  "get_billable_impressions c (commit_campaign x w) = get_billable_impressions c w"
  by (rule gbi_cong) (simp_all add: commit_campaign_def)

lemma gbi_set_und [simp]:
  "get_billable_impressions c (set_underdelivered_campaigns xs w) = get_billable_impressions c w"
  by (rule gbi_cong) (simp_all add: set_underdelivered_campaigns_def)


lemma finalize_loop_und_mono:
  "underdelivered w \<subseteq> underdelivered (snd (finalize_loop cs und w))"
proof (induction cs arbitrary: und w)
  case Nil
  then show ?case by simp
next
  case (Cons c cs)
  have a: "underdelivered w \<subseteq> underdelivered (snd (finalize_loop cs u w1))"
    if "underdelivered w \<subseteq> underdelivered w1" for u w1
    using that Cons[of w1 u] by blast
  show ?case
    by (auto simp add: Let_def split: sum.splits intro!: a Cons
        simp: promotion_log_add_def commit_campaign_def set_underdelivered_campaigns_def)
qed

lemma finalize_loop_marks:
  assumes "fst (finalize_loop cs und w) = None" and "camp \<in> set cs"
    and "refund_amount camp = None" and "get_billable_impressions camp w = Inr imps"
    and "get_billable_amount camp imps < bid camp"
  shows "camp_id camp \<in> underdelivered (snd (finalize_loop cs und w))"
  using assms
proof (induction cs arbitrary: und w)
  case Nil
  then show ?case by simp
next
  case (Cons c cs)
  show ?case
  proof (cases "c = camp")
    case True
    let ?w1 = "set_underdelivered_campaigns (und @ [camp]) w"
    have "camp_id camp \<in> underdelivered ?w1" by (simp add: set_underdelivered_campaigns_def)
    moreover have "underdelivered ?w1 \<subseteq> underdelivered (snd (finalize_loop cs (und @ [camp]) ?w1))"
      by (rule finalize_loop_und_mono)
    moreover have "finalize_loop (c # cs) und w = finalize_loop cs (und @ [camp]) ?w1"
      using Cons.prems True by (simp add: Let_def)
    ultimately show ?thesis by auto
  next
    case False
    with Cons.prems have mem: "camp \<in> set cs" by simp
    show ?thesis
    proof (cases "refund_amount c \<noteq> None")
      case True
      then show ?thesis using Cons.IH[of und w] Cons.prems mem by simp
    next
      case unset: False
      from Cons.prems(1) unset obtain i where i: "get_billable_impressions c w = Inr i"
        by (cases "get_billable_impressions c w") auto
      show ?thesis
      proof (cases "bid c \<le> get_billable_amount c i")
        case True
        define w3 where "w3 = (let entry = (case cpm c of
                                  Some rate \<Rightarrow> CompletedCpm (camp_id c) (get_billable_amount c i) i rate
                                | None \<Rightarrow> CompletedPreCpm (camp_id c) (get_billable_amount c i));
                       w1 = promotion_log_add (link_id c) entry w;
                       w2 = commit_campaign (c\<lparr>refund_amount := Some 0\<rparr>) w1
                   in (if und \<noteq> [] then set_underdelivered_campaigns und w2 else w2))"
        have eq: "finalize_loop (c # cs) und w = finalize_loop cs und w3"
          using unset i True by (simp add: Let_def w3_def)
        have "get_billable_impressions camp w3 = Inr imps"
          using Cons.prems(4) by (simp add: w3_def Let_def)
        from Cons.IH[OF _ mem Cons.prems(3) this Cons.prems(5), of und] Cons.prems(1)[unfolded eq]
        show ?thesis unfolding eq by simp
      next
        case False
        define w1 where "w1 = set_underdelivered_campaigns (und @ [c]) w"
        have eq: "finalize_loop (c # cs) und w = finalize_loop cs (und @ [c]) w1"
          using unset i False by (simp add: Let_def w1_def)
        have "get_billable_impressions camp w1 = Inr imps"
          using Cons.prems(4) by (simp add: w1_def)
        from Cons.IH[OF _ mem Cons.prems(3) this Cons.prems(5), of "und @ [c]"]
          Cons.prems(1)[unfolded eq]
        show ?thesis unfolding eq by simp
      qed
    qed
  qed
qed



text \<open>
  C2. When campaigns ended on the finalize day with a real transaction, and the traffic
  collaborator reports missing coverage between the start of the run of the earliest of
  them and the finalize day, \<open>finalize_completed_campaigns\<close> raises (the
  \<^verbatim>\<open>ValueError\<close> that names the day and the gaps) and the world is as it was: no
  refund amount is set, no campaign is marked as underdelivered, nothing is logged.
\<close>

theorem finalize_aborts_on_missing_traffic:
  assumes "finalize_query daysago w = c # cs"
    and "get_total_run (earliest c cs) w = Inr (start, end)"
    and "missing_traffic w start (midnight (finalize_date daysago w)) \<noteq> []"
  shows "finalize_completed_campaigns daysago w
           = (Some (MissingTraffic (midnight (finalize_date daysago w))
                      (missing_traffic w start (midnight (finalize_date daysago w)))), w)"
  using assms by (simp add: finalize_completed_campaigns_def Let_def)

theorem finalize_aborts_on_missing_traffic_witness:
  "finalize_query 1 world_gap = [camp_example]
   \<and> get_total_run (earliest camp_example []) world_gap = Inr (245, 293)
   \<and> missing_traffic world_gap 245 (midnight (finalize_date 1 world_gap)) = [245]
   \<and> finalize_completed_campaigns 1 world_gap = (Some (MissingTraffic 288 [245]), world_gap)"
proof -
  have q: "finalize_query 1 world_gap = [camp_example]" by code_simp
  have r: "get_total_run (earliest camp_example []) world_gap = Inr (245, 293)" by code_simp
  have d: "midnight (finalize_date 1 world_gap) = 288" by code_simp
  have m: "missing_traffic world_gap 245 (midnight (finalize_date 1 world_gap)) = [245]"
    by (simp add: world_gap_def)
  have "missing_traffic world_gap 245 (midnight (finalize_date 1 world_gap)) \<noteq> []"
    by (simp add: m)
  from finalize_aborts_on_missing_traffic [OF q r this] q r m d show ?thesis by simp
qed

subsection \<open>Underdelivered campaigns and refunds\<close>







subsection \<open>Finalizing twice\<close>

lemma finalize_loop_env:
  "clock (snd (finalize_loop cs und w)) = clock w
   \<and> charged (snd (finalize_loop cs und w)) = charged w
   \<and> is_charged_fault (snd (finalize_loop cs und w)) = is_charged_fault w
   \<and> promotion_history (snd (finalize_loop cs und w)) = promotion_history w
   \<and> missing_traffic (snd (finalize_loop cs und w)) = missing_traffic w"
proof (induction cs arbitrary: und w)
  case Nil
  then show ?case by simp
next
  case (Cons c cs)
  show ?case
    by (simp add: Cons Let_def promotion_log_add_def commit_campaign_def
        set_underdelivered_campaigns_def split: sum.splits)
qed

lemma fully_delivered_cong:
  assumes "clock w' = clock w" "charged w' = charged w"
    "is_charged_fault w' = is_charged_fault w" "promotion_history w' = promotion_history w"
  shows "fully_delivered c w' = fully_delivered c w"
  by (simp add: fully_delivered_def gbi_cong[OF assms])

lemma set_underdelivered_known:
  "camp_id ` set und \<subseteq> underdelivered w \<Longrightarrow> set_underdelivered_campaigns und w = w"
  by (simp add: set_underdelivered_campaigns_def Un_absorb2)

lemma finalize_loop_stable:
  assumes "\<forall>c \<in> set cs. refund_amount c = None \<longrightarrow>
             (\<exists>imps. get_billable_impressions c w = Inr imps
                     \<and> get_billable_amount c imps < bid c)
             \<and> camp_id c \<in> underdelivered w"
    and "camp_id ` set und \<subseteq> underdelivered w"
  shows "finalize_loop cs und w = (None, w)"
  using assms
proof (induction cs arbitrary: und)
  case Nil
  then show ?case by simp
next
  case (Cons c cs)
  show ?case
  proof (cases "refund_amount c \<noteq> None")
    case True
    then show ?thesis using Cons by simp
  next
    case False
    with Cons.prems(1) obtain imps where i: "get_billable_impressions c w = Inr imps"
      "get_billable_amount c imps < bid c" and m: "camp_id c \<in> underdelivered w"
      by auto
    have known: "camp_id ` set (und @ [c]) \<subseteq> underdelivered w"
      using Cons.prems(2) m by simp
    have "finalize_loop (c # cs) und w
            = finalize_loop cs (und @ [c]) (set_underdelivered_campaigns (und @ [c]) w)"
      using False i by (simp add: Let_def)
    also have "\<dots> = finalize_loop cs (und @ [c]) w"
      by (simp only: set_underdelivered_known[OF known])
    also have "\<dots> = (None, w)"
      using Cons.IH[OF _ known] Cons.prems(1) by simp
    finally show ?thesis .
  qed
qed

lemma commit_is_close:
  assumes "distinct (map camp_id (campaigns w))" and "c \<in> set (campaigns w)"
    and "refund_amount c = None" and "fully_delivered c w0"
  shows "map (\<lambda>x. if camp_id x = camp_id c then c\<lparr>refund_amount := Some 0\<rparr> else x) (campaigns w)
           = map (close_delivered [c] w0) (campaigns w)"
proof (rule map_cong[OF refl])
  fix x assume x: "x \<in> set (campaigns w)"
  have inj: "inj_on camp_id (set (campaigns w))" using assms(1) by (simp add: distinct_map)
  have "camp_id x = camp_id c \<longleftrightarrow> x = c" using inj x assms(2) by (auto dest: inj_onD)
  then show "(if camp_id x = camp_id c then c\<lparr>refund_amount := Some 0\<rparr> else x)
               = close_delivered [c] w0 x"
    using assms(3,4) by (simp add: close_delivered_def)
qed

lemma close_delivered_id [simp]: "camp_id (close_delivered cs w x) = camp_id x"
  by (simp add: close_delivered_def)

lemma close_delivered_compose:
  assumes "c \<notin> set rest"
  shows "close_delivered rest w (close_delivered [c] w x) = close_delivered (c # rest) w x"
  using assms by (auto simp: close_delivered_def)

lemma close_delivered_skip:
  assumes "refund_amount c \<noteq> None \<or> \<not> fully_delivered c w"
  shows "close_delivered (c # rest) w x = close_delivered rest w x"
  using assms by (auto simp: close_delivered_def)

lemma finalize_loop_store:
  assumes "distinct (map camp_id (campaigns w))" and "distinct cs"
    and "set cs \<subseteq> set (campaigns w)"
    and "finalize_loop cs und w = (None, w')"
  shows "campaigns w' = map (close_delivered cs w) (campaigns w)
       \<and> (\<forall>c \<in> set cs. refund_amount c = None \<longrightarrow>
            (\<exists>imps. get_billable_impressions c w = Inr imps))"
  using assms
proof (induction cs arbitrary: und w)
  case Nil
  then show ?case by (simp add: close_delivered_def)
next
  case (Cons c cs)
  have c_in: "c \<in> set (campaigns w)" and rest_in: "set cs \<subseteq> set (campaigns w)"
    and c_notin: "c \<notin> set cs" and dcs: "distinct cs"
    using Cons.prems by simp_all
  show ?case
  proof (cases "refund_amount c \<noteq> None")
    case True
    then have "finalize_loop cs und w = (None, w')" using Cons.prems(4) by simp
    from Cons.IH[OF Cons.prems(1) dcs rest_in this] True show ?thesis
      by (auto simp add: close_delivered_skip)
  next
    case unset: False
    from Cons.prems(4) unset obtain i where i: "get_billable_impressions c w = Inr i"
      by (cases "get_billable_impressions c w") auto
    show ?thesis
    proof (cases "bid c \<le> get_billable_amount c i")
      case True
      then have full: "fully_delivered c w" by (simp add: fully_delivered_def i)
      define w3 where "w3 = (let entry = (case cpm c of
                                  Some rate \<Rightarrow> CompletedCpm (camp_id c) (get_billable_amount c i) i rate
                                | None \<Rightarrow> CompletedPreCpm (camp_id c) (get_billable_amount c i));
                       w1 = promotion_log_add (link_id c) entry w;
                       w2 = commit_campaign (c\<lparr>refund_amount := Some 0\<rparr>) w1
                   in (if und \<noteq> [] then set_underdelivered_campaigns und w2 else w2))"
      have eq: "finalize_loop (c # cs) und w = finalize_loop cs und w3"
        using unset i True by (simp add: Let_def w3_def)
      have store3: "campaigns w3 = map (close_delivered [c] w) (campaigns w)"
        using commit_is_close[OF Cons.prems(1) c_in _ full] unset
        by (simp add: w3_def Let_def commit_campaign_def promotion_log_add_def
            set_underdelivered_campaigns_def)
      have d3: "distinct (map camp_id (campaigns w3))"
        using Cons.prems(1) by (simp add: store3 comp_def)
      have keep: "close_delivered [c] w x = x" if "x \<in> set cs" for x
        using that c_notin by (auto simp: close_delivered_def)
      have in3: "set cs \<subseteq> set (campaigns w3)"
      proof
        fix x assume x: "x \<in> set cs"
        then have "x \<in> set (campaigns w)" using rest_in by auto
        then have "close_delivered [c] w x \<in> set (campaigns w3)" by (simp add: store3)
        then show "x \<in> set (campaigns w3)" by (simp add: keep[OF x])
      qed
      have env: "clock w3 = clock w" "charged w3 = charged w"
        "is_charged_fault w3 = is_charged_fault w" "promotion_history w3 = promotion_history w"
        by (simp_all add: w3_def Let_def commit_campaign_def promotion_log_add_def
            set_underdelivered_campaigns_def)
      have cd: "close_delivered cs w3 = close_delivered cs w"
        by (rule ext) (simp add: close_delivered_def fully_delivered_cong[OF env])
      from Cons.prems(4) have "finalize_loop cs und w3 = (None, w')" by (simp only: eq)
      from Cons.IH[OF d3 dcs in3 this]
      have st: "campaigns w' = map (close_delivered cs w) (campaigns w3)"
        and ok: "\<forall>c \<in> set cs. refund_amount c = None \<longrightarrow>
            (\<exists>imps. get_billable_impressions c w = Inr imps)"
        by (simp_all add: cd gbi_cong[OF env])
      have "campaigns w' = map (close_delivered (c # cs) w) (campaigns w)"
        by (simp add: st store3 comp_def close_delivered_compose[OF c_notin])
      with ok i show ?thesis by simp
    next
      case False
      then have nfull: "\<not> fully_delivered c w" by (simp add: fully_delivered_def i)
      define w1 where "w1 = set_underdelivered_campaigns (und @ [c]) w"
      have eq: "finalize_loop (c # cs) und w = finalize_loop cs (und @ [c]) w1"
        using unset i False by (simp add: Let_def w1_def)
      have store1: "campaigns w1 = campaigns w"
        by (simp add: w1_def set_underdelivered_campaigns_def)
      have env: "clock w1 = clock w" "charged w1 = charged w"
        "is_charged_fault w1 = is_charged_fault w" "promotion_history w1 = promotion_history w"
        by (simp_all add: w1_def set_underdelivered_campaigns_def)
      have cd: "close_delivered cs w1 = close_delivered cs w"
        by (rule ext) (simp add: close_delivered_def fully_delivered_cong[OF env])
      from Cons.prems(4) have "finalize_loop cs (und @ [c]) w1 = (None, w')" by (simp only: eq)
      from Cons.IH[OF _ dcs _ this] Cons.prems(1) rest_in
      have st: "campaigns w' = map (close_delivered cs w) (campaigns w)"
        and ok: "\<forall>c \<in> set cs. refund_amount c = None \<longrightarrow>
            (\<exists>imps. get_billable_impressions c w = Inr imps)"
        by (simp_all add: cd store1 gbi_cong[OF env])
      have "campaigns w' = map (close_delivered (c # cs) w) (campaigns w)"
        using nfull by (simp add: st close_delivered_skip)
      with ok i show ?thesis by simp
    qed
  qed
qed

lemma earliest_map:
  assumes "\<And>x. start_date (f x) = start_date x"
  shows "earliest (f c) (map f xs) = f (earliest c xs)"
proof (induction xs arbitrary: c)
  case Nil
  then show ?case by simp
next
  case (Cons x xs)
  have "earliest (f c) (map f (x # xs))
          = earliest (f (if start_date x < start_date c then x else c)) (map f xs)"
    by (simp add: assms)
  then show ?case by (simp only: Cons earliest.simps)
qed

lemma close_delivered_fields [simp]:
  "start_date (close_delivered cs w x) = start_date x"
  "end_date (close_delivered cs w x) = end_date x"
  "trans_id (close_delivered cs w x) = trans_id x"
  "priority_cpm (close_delivered cs w x) = priority_cpm x"
  by (simp_all add: close_delivered_def)

lemma get_total_run_cong:
  assumes "clock w' = clock w" "charged w' = charged w"
    "is_charged_fault w' = is_charged_fault w"
    and "camp_id y = camp_id x" "trans_id y = trans_id x" "priority_cpm y = priority_cpm x"
    "start_date y = start_date x" "end_date y = end_date x"
  shows "get_total_run y w' = get_total_run x w"
  using assms
  by (simp add: get_total_run_def charged_or_not_needed_def is_charged_transaction_def)

text \<open>
  C5, as stated, fails for a campaign that the pass finds underdelivered: the pass sets
  no refund amount on it, so a later run does not pass it over. The example campaign
  has no refund amount after a completed pass, and a second run after the traffic data
  has grown to cover its bid evaluates it again and closes it.
\<close>

theorem finalize_leaves_unset_counterexample:
  "camp_example \<in> set (finalize_query 1 world_fin)
   \<and> fst (finalize_completed_campaigns 1 world_fin) = None
   \<and> map refund_amount (campaigns (snd (finalize_completed_campaigns 1 world_fin)))
       = [None, None, None, None]
   \<and> map refund_amount (campaigns (snd (finalize_completed_campaigns 1
         ((snd (finalize_completed_campaigns 1 world_fin))
            \<lparr>promotion_history := (\<lambda>c s e. [(s, 30000)])\<rparr>))))
       = [Some 0, None, None, None]"
  by code_simp

text \<open>
  C5 (amended). On a store with unique campaign ids, a second run of
  \<open>finalize_completed_campaigns\<close> after a completed one (same day, same traffic data,
  same gateway) is a no-op: it completes and leaves the whole world as the first run
  left it. The first run sets the refund amount (to 0) of exactly the eligible campaigns
  it finds fully delivered, which the second run passes over; a campaign it finds
  underdelivered keeps its record, without a refund amount, and is marked as
  underdelivered, and the second run evaluates it again and marks it again.
\<close>

theorem finalize_twice:
  assumes ids: "distinct (map camp_id (campaigns w))"
    and run: "finalize_completed_campaigns daysago w = (None, w')"
  shows "finalize_completed_campaigns daysago w' = (None, w')
       \<and> campaigns w' = map (close_delivered (finalize_query daysago w) w) (campaigns w)
       \<and> (\<forall>c \<in> set (finalize_query daysago w).
             refund_amount c = None \<and> \<not> fully_delivered c w \<longrightarrow>
             c \<in> set (campaigns w') \<and> refund_amount c = None
             \<and> camp_id c \<in> underdelivered w')"
proof (cases "finalize_query daysago w")
  case Nil
  then have "w' = w" using run by (simp add: finalize_completed_campaigns_def)
  moreover have "close_delivered [] w = (\<lambda>x. x)"
    by (rule ext) (simp add: close_delivered_def)
  ultimately show ?thesis using run Nil by simp
next
  case (Cons c rest)
  define cs where "cs = finalize_query daysago w"
  define g where "g = close_delivered cs w"
  define date where "date = midnight (finalize_date daysago w)"
  have cs: "cs = c # rest" by (simp add: cs_def Cons)
  from run obtain s e where tr: "get_total_run (earliest c rest) w = Inr (s, e)"
    and nogap: "missing_traffic w s date = []"
    and loop: "finalize_loop cs [] w = (None, w')"
    by (auto simp add: finalize_completed_campaigns_def Let_def Cons cs date_def
        simp del: finalize_loop.simps split: sum.splits prod.splits if_splits)
  have dstore: "distinct (campaigns w)" using ids by (simp add: distinct_map)
  have dcs: "distinct cs" unfolding cs_def finalize_query_def using dstore by simp
  have sub: "set cs \<subseteq> set (campaigns w)" by (auto simp: cs_def finalize_query_def)
  from finalize_loop_store[OF ids dcs sub loop]
  have store: "campaigns w' = map g (campaigns w)"
    and ok: "\<forall>c \<in> set cs. refund_amount c = None \<longrightarrow>
               (\<exists>imps. get_billable_impressions c w = Inr imps)"
    by (simp_all add: g_def)
  have w': "w' = snd (finalize_loop cs [] w)" by (simp add: loop)
  have env: "clock w' = clock w" "charged w' = charged w"
    "is_charged_fault w' = is_charged_fault w" "promotion_history w' = promotion_history w"
    "missing_traffic w' = missing_traffic w"
    unfolding w' using finalize_loop_env[of cs "[]" w] by simp_all
  have fd: "finalize_date daysago w' = finalize_date daysago w"
    by (simp add: finalize_date_def env)
  have q': "finalize_query daysago w' = map g cs"
    by (simp add: finalize_query_def fd store filter_map comp_def g_def cs_def)
  have marks: "camp_id x \<in> underdelivered w' \<and> (\<exists>imps. get_billable_impressions x w = Inr imps
                 \<and> get_billable_amount x imps < bid x)"
    if x: "x \<in> set cs" "refund_amount x = None" "\<not> fully_delivered x w" for x
  proof -
    from ok x obtain imps where i: "get_billable_impressions x w = Inr imps" by blast
    with x(3) have lt: "get_billable_amount x imps < bid x" by (simp add: fully_delivered_def)
    have "fst (finalize_loop cs [] w) = None" by (simp add: loop)
    from finalize_loop_marks[OF this x(1,2) i lt] i lt show ?thesis by (simp add: loop)
  qed
  have stable: "finalize_loop (map g cs) [] w' = (None, w')"
  proof (rule finalize_loop_stable)
    show "camp_id ` set [] \<subseteq> underdelivered w'" by simp
    show "\<forall>c \<in> set (map g cs). refund_amount c = None \<longrightarrow>
             (\<exists>imps. get_billable_impressions c w' = Inr imps
                     \<and> get_billable_amount c imps < bid c)
             \<and> camp_id c \<in> underdelivered w'"
    proof (intro ballI impI)
      fix y assume y: "y \<in> set (map g cs)" "refund_amount y = None"
      then obtain x where x: "x \<in> set cs" "y = g x" by auto
      from y(2) x have "refund_amount x = None \<and> \<not> fully_delivered x w \<and> y = x"
        by (auto simp: g_def close_delivered_def split: if_splits)
      then have rx: "refund_amount x = None" "\<not> fully_delivered x w" "y = x" by simp_all
      from marks[OF x(1) rx(1,2)] gbi_cong[OF env(1-4), of x] rx(3)
      show "(\<exists>imps. get_billable_impressions y w' = Inr imps
                     \<and> get_billable_amount y imps < bid y)
             \<and> camp_id y \<in> underdelivered w'" by simp
    qed
  qed
  have e': "earliest (g c) (map g rest) = g (earliest c rest)"
    by (rule earliest_map) (simp add: g_def)
  have tr': "get_total_run (g (earliest c rest)) w' = Inr (s, e)"
    using get_total_run_cong[OF env(1-3), of "g (earliest c rest)" "earliest c rest"] tr
    by (simp add: g_def)
  have second: "finalize_completed_campaigns daysago w' = (None, w')"
    using stable nogap
    by (simp add: finalize_completed_campaigns_def q' cs e' tr' fd env date_def Let_def
        del: finalize_loop.simps)
  have third: "\<forall>c \<in> set (finalize_query daysago w).
             refund_amount c = None \<and> \<not> fully_delivered c w \<longrightarrow>
             c \<in> set (campaigns w') \<and> refund_amount c = None
             \<and> camp_id c \<in> underdelivered w'"
  proof (intro ballI impI)
    fix x assume x: "x \<in> set (finalize_query daysago w)"
      "refund_amount x = None \<and> \<not> fully_delivered x w"
    then have xin: "x \<in> set cs" by (simp add: cs_def)
    have "g x = x" using x(2) by (simp add: g_def close_delivered_def)
    moreover have "g x \<in> set (campaigns w')" using sub xin by (auto simp: store)
    ultimately show "x \<in> set (campaigns w') \<and> refund_amount x = None
             \<and> camp_id x \<in> underdelivered w'"
      using marks[OF xin] x(2) by simp
  qed
  show ?thesis using second store third by (simp add: g_def cs_def)
qed

theorem finalize_twice_witness:
  "fst (finalize_completed_campaigns 1 world_two) = None
   \<and> map refund_amount (campaigns (snd (finalize_completed_campaigns 1 world_two)))
       = [None, Some 0]
   \<and> underdelivered (snd (finalize_completed_campaigns 1 world_two)) = {1}
   \<and> finalize_completed_campaigns 1 (snd (finalize_completed_campaigns 1 world_two))
       = (None, snd (finalize_completed_campaigns 1 world_two))
   \<and> camp_example \<in> set (campaigns (snd (finalize_completed_campaigns 1 world_two)))
   \<and> camp_id camp_example \<in> underdelivered (snd (finalize_completed_campaigns 1 world_two))"
proof -
  define w' where "w' = snd (finalize_completed_campaigns 1 world_two)"
  have none: "fst (finalize_completed_campaigns 1 world_two) = None" by code_simp
  then have run: "finalize_completed_campaigns 1 world_two = (None, w')"
    by (simp add: w'_def prod_eq_iff)
  have ids: "distinct (map camp_id (campaigns world_two))" by code_simp
  have el: "camp_example \<in> set (finalize_query 1 world_two)" by code_simp
  have un: "refund_amount camp_example = None" by code_simp
  have nf: "\<not> fully_delivered camp_example world_two" by code_simp
  have r: "map refund_amount (campaigns w') = [None, Some 0]" unfolding w'_def by code_simp
  have u: "underdelivered w' = {1}" unfolding w'_def by code_simp
  from finalize_twice [OF ids run] el un nf none r u show ?thesis
    unfolding w'_def[symmetric] by blast
qed

subsection \<open>Publishing the live set\<close>

lemma map_of_fold_update_eq:
  "map_of (fold (\<lambda>(k, v). AList.update k v) ps acc) = map_of acc ++ map_of (rev ps)"
proof (induction ps arbitrary: acc)
  case Nil
  then show ?case by simp
next
  case (Cons p ps)
  obtain k v where p: "p = (k, v)" by (cases p)
  have "fold (\<lambda>(k, v). AList.update k v) (p # ps) acc
          = fold (\<lambda>(k, v). AList.update k v) ps (AList.update k v acc)"
    by (simp add: p)
  then have "map_of (fold (\<lambda>(k, v). AList.update k v) (p # ps) acc)
          = map_of (AList.update k v acc) ++ map_of (rev ps)"
    by (simp only: Cons)
  also have "\<dots> = (map_of acc)(k \<mapsto> v) ++ map_of (rev ps)"
    by (simp only: update_conv')
  also have "\<dots> = map_of acc ++ map_of (rev (p # ps))"
    by (rule ext) (simp add: p map_add_def split: option.splits)
  finally show ?case .
qed

lemma map_of_rev_distinct:
  "distinct (map fst ps) \<Longrightarrow> map_of (rev ps) = map_of ps"
proof (induction ps)
  case Nil
  then show ?case by simp
next
  case (Cons p ps)
  obtain k v where p: "p = (k, v)" by (cases p)
  from Cons.prems have k: "k \<notin> fst ` set ps" and d: "distinct (map fst ps)" by (simp_all add: p)
  have "map_of ps k = None" using k by (simp add: map_of_eq_None_iff)
  then show ?case
    by (auto simp add: p Cons.IH[OF d] map_add_def fun_eq_iff split: option.splits)
qed



lemma all_weights_map:
  fixes weights w
  defines "u \<equiv> map_of (dict [(Sr (s_id sr), []). sr \<leftarrow> map snd (subreddits_by_name
                  (remdups (map pw_sr_name (get_campaigns (promo_datetime_now None w - 24)
                      (Some (promo_datetime_now None w + 24)) w))) w)])
              ++ map_of (rev weights)"
  shows "map_of (all_weights weights w) =
     (case u Global of
           Some front \<Rightarrow> (u(Global := None))(FRONT_PAGE \<mapsto> front)
         | None \<Rightarrow> u)"
proof -
  define updated where "updated = fold (\<lambda>(k, v). AList.update k v) weights
     (dict [(Sr (s_id sr), []). sr \<leftarrow> map snd (subreddits_by_name
                  (remdups (map pw_sr_name (get_campaigns (promo_datetime_now None w - 24)
                      (Some (promo_datetime_now None w + 24)) w))) w)])"
  have u: "map_of updated = u" by (simp add: updated_def u_def map_of_fold_update_eq)
  have aw: "all_weights weights w =
      (case map_of updated Global of
           Some front \<Rightarrow> AList.update FRONT_PAGE front (AList.delete Global updated)
         | None \<Rightarrow> updated)"
    by (simp only: all_weights_def Let_def updated_def)
  show ?thesis
  proof (cases "u Global")
    case None
    then show ?thesis by (simp add: aw u)
  next
    case (Some front)
    then show ?thesis by (simp add: aw u update_conv' delete_conv')
  qed
qed







subsection \<open>The lottery\<close>

lemmas lottery_loop_simps = lottery_loop.simps
declare lottery_loop.simps [simp del]

lemma lottery_loop_draws:
  assumes "distinct (map fst weights)"
    and "\<And>ws. ws \<noteq> [] \<Longrightarrow> set ws \<subseteq> set weights \<Longrightarrow> weighted_lottery ws \<in> fst ` set ws"
  shows "\<exists>sel. lottery_loop weighted_lottery weights selected n = Inr (selected @ sel)
           \<and> distinct sel \<and> set sel \<subseteq> fst ` set weights
           \<and> int (length sel) = max 0 (min (n - int (length selected)) (int (length weights)))"
  using assms
proof (induction weighted_lottery weights selected n rule: lottery_loop.induct)
  case (1 weighted_lottery weights selected n)
  show ?case
  proof (cases "weights \<noteq> [] \<and> int (length selected) < n")
    case False
    then have "lottery_loop weighted_lottery weights selected n = Inr (selected @ [])"
      by (subst lottery_loop_simps) auto
    moreover have "max 0 (min (n - int (length selected)) (int (length weights))) = 0"
      using False by auto
    ultimately show ?thesis by auto
  next
    case True
    define s where "s = weighted_lottery weights"
    have s_in: "s \<in> fst ` set weights" unfolding s_def using True "1.prems"(2)[of weights] by simp
    define rest where "rest = AList.delete s weights"
    have step: "lottery_loop weighted_lottery weights selected n
                  = lottery_loop weighted_lottery rest (selected @ [s]) n"
      using True s_in
      by (simp add: lottery_loop_simps[of weighted_lottery weights selected n] s_def rest_def Let_def)
    have d: "distinct (map fst rest)"
      using "1.prems"(1) by (simp add: rest_def delete_keys distinct_removeAll)
    have sub: "set rest \<subseteq> set weights" by (auto simp: rest_def AList.delete_eq)
    have pick: "weighted_lottery ws \<in> fst ` set ws" if "ws \<noteq> []" "set ws \<subseteq> set rest" for ws
      using "1.prems"(2)[of ws] that sub by blast
    from "1.IH"[OF True s_def s_in d[unfolded rest_def] pick[unfolded rest_def]]
    obtain sel where sel: "lottery_loop weighted_lottery rest (selected @ [s]) n
                             = Inr ((selected @ [s]) @ sel)"
      "distinct sel" "set sel \<subseteq> fst ` set rest"
      "int (length sel) = max 0 (min (n - int (length (selected @ [s]))) (int (length rest)))"
      unfolding rest_def by blast
    have s_notin: "s \<notin> fst ` set rest" by (simp add: rest_def delete_notin_dom)
    have len: "length rest = length weights - 1"
    proof -
      have "length (map fst rest) = length (removeAll s (map fst weights))"
        by (simp add: rest_def delete_keys)
      also have "\<dots> = length (map fst weights) - 1"
        using "1.prems"(1) s_in by (simp add: distinct_remove1_removeAll[symmetric] length_remove1)
      finally show ?thesis by simp
    qed
    have wpos: "0 < length weights" using True by simp
    have "lottery_loop weighted_lottery weights selected n = Inr (selected @ (s # sel))"
      using step sel(1) by simp
    moreover have "distinct (s # sel)" using sel(2,3) s_notin by auto
    moreover have "set (s # sel) \<subseteq> fst ` set weights" using sel(3) s_in sub by auto
    moreover have "int (length (s # sel))
                     = max 0 (min (n - int (length selected)) (int (length weights)))"
      using sel(4) len wpos True by auto
    ultimately show ?thesis by blast
  qed
qed

lemma fold_update_distinct:
  "distinct (map fst acc) \<Longrightarrow> distinct (map fst (fold (\<lambda>(k, v). AList.update k v) ps acc))"
proof (induction ps arbitrary: acc)
  case Nil
  then show ?case by simp
next
  case (Cons p ps)
  obtain k v where p: "p = (k, v)" by (cases p)
  have "distinct (map fst (AList.update k v acc))" using Cons.prems by (rule distinct_update)
  from Cons.IH[OF this] show ?case by (simp add: p)
qed

lemma dict_distinct: "distinct (map fst (dict ps))"
  by (simp add: dict_def fold_update_distinct)

lemma dict_keys: "fst ` set (dict ps) = fst ` set ps"
proof -
  have "dom (map_of (dict ps)) = dom (map_of (rev ps))"
    by (simp add: dict_def map_of_fold_update_eq)
  then show ?thesis by (simp add: dom_map_of_conv_image_fst)
qed

lemma dict_length: "length (dict ps) = card (fst ` set ps)"
proof -
  have "card (fst ` set ps) = card (set (map fst (dict ps)))" by (simp add: dict_keys)
  also have "\<dots> = length (map fst (dict ps))" using dict_distinct by (rule distinct_card)
  finally show ?thesis by simp
qed

lemma lottery_promoted_links_draws:
  assumes promos: "get_promotion_list srids w = Inr promo_tuples"
    and pick: "\<And>ws. ws \<noteq> [] \<Longrightarrow> weighted_lottery ws \<in> fst ` set ws"
  shows "\<exists>sel. lottery_promoted_links srids n weighted_lottery w = Inr sel
           \<and> distinct sel
           \<and> set sel \<subseteq> {p \<in> set promo_tuples. fst (snd p) \<noteq> 0}
           \<and> int (length sel)
               = max 0 (min n (int (card {p \<in> set promo_tuples. fst (snd p) \<noteq> 0})))"
proof -
  define ps where "ps = [(p, fst (snd p)). p \<leftarrow> promo_tuples, fst (snd p) \<noteq> 0]"
  have keys: "fst ` set ps = {p \<in> set promo_tuples. fst (snd p) \<noteq> 0}"
    by (auto simp: ps_def image_iff)
  have run: "lottery_promoted_links srids n weighted_lottery w
               = lottery_loop weighted_lottery (dict ps) [] n"
    by (simp only: lottery_promoted_links_def promos ps_def sum.case Let_def)
  from lottery_loop_draws[of "dict ps" weighted_lottery "[]" n, OF dict_distinct] pick
  obtain sel where "lottery_loop weighted_lottery (dict ps) [] n = Inr ([] @ sel)"
    "distinct sel" "set sel \<subseteq> fst ` set (dict ps)"
    "int (length sel) = max 0 (min (n - int (length ([] :: adweight list))) (int (length (dict ps))))"
    by blast
  then show ?thesis by (auto simp: run dict_keys keys dict_length)
qed

lemma lottery_promoted_links_example:
  "get_promotion_list [Sr 21] world_three = Inr [(1, 3 / 4, 4), (1, 0, 6), (2, 1 / 4, 3)]
   \<and> lottery_promoted_links [Sr 21] 10 (\<lambda>ws. fst (last ws)) world_three
       = Inr [(2, 1 / 4, 3), (1, 3 / 4, 4)]"
  by code_simp

text \<open>
  C10. Where the live entries have a total weight other than zero (or there are none),
  \<open>lottery_promoted_links\<close> behaves as the claim says
  (\<open>lottery_promoted_links_draws\<close>): distinct entries of non-zero weight, as many as
  \<open>min(n, number of such entries)\<close>. Where there are entries and all of them have
  weight zero, the claim promises the empty sequence, but
  \<open>get_promotion_list\<close> divides each weight by the total before
  \<open>lottery_promoted_links\<close> filters the zero weights out, and the call raises
  \<^verbatim>\<open>ZeroDivisionError\<close>, whatever the bound and the lottery.
\<close>

theorem lottery_zero_total_raises:
  "get_promotion_list [Sr 21] world_zero = Inl ZeroDivisionError
   \<and> lottery_promoted_links [Sr 21] n weighted_lottery world_zero = Inl ZeroDivisionError"
proof -
  have "get_promotion_list [Sr 21] world_zero = Inl ZeroDivisionError" by code_simp
  then show ?thesis by (simp add: lottery_promoted_links_def)
qed

subsection \<open>The daily pass\<close>

lemma finalize_loop_live:
  "live_adweights (snd (finalize_loop cs und w)) = live_adweights w
   \<and> promos_updated (snd (finalize_loop cs und w)) = promos_updated w"
proof (induction cs arbitrary: und w)
  case Nil
  then show ?case by simp
next
  case (Cons c cs)
  show ?case
    by (simp add: Cons Let_def promotion_log_add_def commit_campaign_def
        set_underdelivered_campaigns_def split: sum.splits)
qed

lemma finalize_completed_live:
  "live_adweights (snd (finalize_completed_campaigns d w)) = live_adweights w
   \<and> promos_updated (snd (finalize_completed_campaigns d w)) = promos_updated w"
  by (simp add: finalize_completed_campaigns_def Let_def finalize_loop_live
      del: finalize_loop.simps split: list.splits sum.splits prod.splits)

lemma update_append_values:
  assumes "distinct (map fst al)"
  shows "set (concat (map snd (AList.update k
            ((case map_of al k of Some xs \<Rightarrow> xs | None \<Rightarrow> []) @ [x]) al)))
           = insert x (set (concat (map snd al)))"
  using assms
proof (induction al)
  case Nil
  then show ?case by simp
next
  case (Cons p al)
  obtain k' v' where p: "p = (k', v')" by (cases p)
  show ?case
  proof (cases "k' = k")
    case True
    then show ?thesis by (auto simp: p)
  next
    case False
    from Cons.prems have "distinct (map fst al)" by simp
    from Cons.IH[OF this] False show ?thesis by (auto simp: p)
  qed
qed

lemma place_adweights_values:
  assumes "place_adweights aws test ls cs srs by_srid w = (Inr by_srid', w')"
    and "distinct (map fst by_srid)" and "fst ` set by_srid \<subseteq> insert Global (range Sr)"
  shows "set (concat (map snd by_srid')) = set aws \<union> set (concat (map snd by_srid))
       \<and> distinct (map fst by_srid') \<and> fst ` set by_srid' \<subseteq> insert Global (range Sr)"
  using assms
proof (induction aws arbitrary: by_srid w)
  case Nil
  then show ?case by simp
next
  case (Cons aw aws)
  from Cons.prems(1) obtain l where l: "map_of ls (fst aw) = Some l"
    by (cases "map_of ls (fst aw)") auto
  from Cons.prems(1) l obtain c where c: "map_of cs (snd (snd aw)) = Some c"
    by (cases "map_of cs (snd (snd aw))") auto
  define target where "target = (if sr_name c \<noteq> []
            then (case map_of srs (sr_name c) of
                    None \<Rightarrow> Inl KeyError
                  | Some sr \<Rightarrow> Inr (Sr (s_id sr), s_over_18 sr))
            else Inr (Global, False))"
  from Cons.prems(1) l c obtain k o18 where t: "target = Inr (k, o18)"
    by (cases target) (auto simp: target_def)
  have k: "k \<in> insert Global (range Sr)"
    using t by (auto simp: target_def split: if_splits option.splits)
  define w2 where "w2 = (let w1 = (if o18 \<and> \<not> test then set_over_18 l w else w)
     in (if is_accepted (link_now l w1) \<and> \<not> is_promoted (link_now l w1) \<and> \<not> test
                     then set_promote_status l promoted w1 else w1))"
  define b where "b = AList.update k
     ((case map_of by_srid k of Some xs \<Rightarrow> xs | None \<Rightarrow> []) @ [aw]) by_srid"
  have step: "place_adweights (aw # aws) test ls cs srs by_srid w
                = place_adweights aws test ls cs srs b w2"
    using l c t[unfolded target_def] by (simp add: Let_def w2_def b_def)
  have db: "distinct (map fst b)" using Cons.prems(2) by (simp add: b_def distinct_update)
  have "set (map fst b) \<subseteq> insert k (set (map fst by_srid))"
    by (simp add: b_def update_keys subset_insertI)
  then have kb: "fst ` set b \<subseteq> insert Global (range Sr)"
    using Cons.prems(3) k by auto
  have vb: "set (concat (map snd b)) = insert aw (set (concat (map snd by_srid)))"
    unfolding b_def by (rule update_append_values[OF Cons.prems(2)])
  from Cons.prems(1) have "place_adweights aws test ls cs srs b w2 = (Inr by_srid', w')"
    by (simp only: step)
  from Cons.IH[OF this db kb] vb show ?case by auto
qed

lemma all_weights_keeps:
  assumes d: "distinct (map fst by_srid)" and keys: "fst ` set by_srid \<subseteq> insert Global (range Sr)"
  shows "set (concat (map snd by_srid)) \<subseteq> set (concat (map snd (all_weights by_srid w)))"
proof
  fix x assume "x \<in> set (concat (map snd by_srid))"
  then obtain k l where kl: "(k, l) \<in> set by_srid" "x \<in> set l" by auto
  define u where "u = map_of (dict [(Sr (s_id sr), [] :: adweight list).
       sr \<leftarrow> map snd (subreddits_by_name
                  (remdups (map pw_sr_name (get_campaigns (promo_datetime_now None w - 24)
                      (Some (promo_datetime_now None w + 24)) w))) w)])
              ++ map_of (rev by_srid)"
  have aw: "map_of (all_weights by_srid w) =
     (case u Global of Some front \<Rightarrow> (u(Global := None))(FRONT_PAGE \<mapsto> front) | None \<Rightarrow> u)"
    using all_weights_map[of by_srid w] by (simp only: u_def)
  have "map_of by_srid k = Some l" using d kl(1) by simp
  then have uk: "u k = Some l" by (simp add: u_def map_of_rev_distinct[OF d] map_add_def)
  have "k \<in> insert Global (range Sr)" using keys kl(1) by force
  then have "\<exists>k'. map_of (all_weights by_srid w) k' = Some l"
  proof
    assume "k = Global"
    then have "map_of (all_weights by_srid w) FRONT_PAGE = Some l" using uk by (simp add: aw)
    then show ?thesis ..
  next
    assume "k \<in> range Sr"
    then obtain i where "k = Sr i" by auto
    then have "map_of (all_weights by_srid w) k = Some l"
      using uk by (simp add: aw split: option.splits)
    then show ?thesis ..
  qed
  then obtain k' where "(k', l) \<in> set (all_weights by_srid w)" by (auto dest: map_of_SomeD)
  with kl(2) show "x \<in> set (concat (map snd (all_weights by_srid w)))" by force
qed

text \<open>
  C7, as stated, fails when finalization aborts: \<open>finalize_completed_campaigns\<close>
  runs before the error campaigns are looked at, and its own exception leaves the
  function first. With a coverage gap on the finalize day, a pass that collected no
  error does not return normally, and a pass that collected one raises the coverage
  error, not the exception that carries the list of error campaigns.
\<close>

theorem make_daily_promotions_gap_counterexample:
  "snd (get_scheduled 0 world_gap) = []
   \<and> fst (make_daily_promotions 0 False world_gap) = Some (MissingTraffic 288 [245])
   \<and> snd (get_scheduled 0 world_gap_err) = [(4, DataError)]
   \<and> fst (make_daily_promotions 0 False world_gap_err) = Some (MissingTraffic 288 [245])"
  by code_simp

text \<open>
  C7 (amended). When \<open>make_daily_promotions\<close> is run with \<open>test\<close> false, the
  lookups of the launch succeed and finalization completes (no coverage gap), the pass
  processes every scheduled campaign whatever errors the scheduling pass collected:
  every scheduled ad weight is in the live set it publishes, the health timestamp is
  marked, finalization has run; only then does it raise the exception that carries the
  list of (campaign id, error) pairs, and it returns normally when that list is empty.
\<close>

theorem make_daily_promotions_reports_errors:
  assumes sched: "get_scheduled offset w = (scheduled, errs)"
    and launch: "launch_scheduled scheduled False w = (Inr by_srid, w1)"
    and fin: "finalize_completed_campaigns (offset + 1)
                (mark_promos_updated (set_live_promotions by_srid w1)) = (None, w3)"
  shows "make_daily_promotions offset False w
           = ((if errs = [] then None else Some (ScheduleErrors errs)), w3)
       \<and> live_adweights w3 = live_adweights (set_live_promotions by_srid w1)
       \<and> (\<forall>aw \<in> set scheduled. \<exists>l. live_adweights w3 ALL_ADS = Some l \<and> aw \<in> set l)
       \<and> promos_updated w3 = Some (clock w1)"
proof -
  define w2 where "w2 = mark_promos_updated (set_live_promotions by_srid w1)"
  have run: "make_daily_promotions offset False w
           = ((if errs = [] then None else Some (ScheduleErrors errs)), w3)"
    using sched launch fin by (simp add: make_daily_promotions_def Let_def)
  have w3: "w3 = snd (finalize_completed_campaigns (offset + 1) w2)" by (simp add: fin w2_def)
  have live: "live_adweights w3 = live_adweights (set_live_promotions by_srid w1)"
    unfolding w3 using finalize_completed_live[of "offset + 1" w2]
    by (simp add: w2_def mark_promos_updated_def)
  have stamp: "promos_updated w3 = Some (clock w1)"
    unfolding w3 using finalize_completed_live[of "offset + 1" w2]
    by (simp add: w2_def mark_promos_updated_def set_live_promotions_def
        set_all_from_weights_def)
  from launch obtain ls cs srs w0 where
    place: "place_adweights scheduled False ls cs srs [] w0 = (Inr by_srid, w1)"
    by (auto simp add: launch_scheduled_def Let_def simp del: place_adweights.simps
        split: sum.splits)
  from place_adweights_values[OF place]
  have vals: "set (concat (map snd by_srid)) = set scheduled"
    and d: "distinct (map fst by_srid)"
    and keys: "fst ` set by_srid \<subseteq> insert Global (range Sr)"
    by simp_all
  have all: "live_adweights w3 ALL_ADS = Some (concat (map snd (all_weights by_srid w1)))"
    by (simp add: live set_live_promotions_def set_all_from_weights_def)
  have "\<forall>aw \<in> set scheduled. \<exists>l. live_adweights w3 ALL_ADS = Some l \<and> aw \<in> set l"
    using all all_weights_keeps[OF d keys, of w1] vals by blast
  with run live stamp show ?thesis by simp
qed

theorem make_daily_promotions_reports_errors_witness:
  "get_scheduled 0 world_err = ([(1, 0, 6)], [(4, DataError)])
   \<and> fst (make_daily_promotions 0 False world_err) = Some (ScheduleErrors [(4, DataError)])
   \<and> live_adweights (snd (make_daily_promotions 0 False world_err)) FRONT_PAGE
       = Some [(1, 0, 6)]
   \<and> live_adweights (snd (make_daily_promotions 0 False world_err)) ALL_ADS
       = Some [(1, 0, 6)]
   \<and> promos_updated (snd (make_daily_promotions 0 False world_err)) = Some 324
   \<and> underdelivered (snd (make_daily_promotions 0 False world_err)) = {1}
   \<and> get_scheduled 0 world0 = ([(1, 0, 6)], [])
   \<and> fst (make_daily_promotions 0 False world0) = None"
proof -
  define by_srid :: "(audience_key \<times> adweight list) list" where "by_srid = [(Global, [(1, 0, 6)])]"
  define w1 where "w1 = snd (launch_scheduled [(1, 0, 6)] False world_err)"
  define w3 where "w3 = snd (finalize_completed_campaigns (0 + 1)
                (mark_promos_updated (set_live_promotions by_srid w1)))"
  have sched: "get_scheduled 0 world_err = ([(1, 0, 6)], [(4, DataError)])" by code_simp
  have "fst (launch_scheduled [(1, 0, 6)] False world_err) = Inr by_srid"
    unfolding by_srid_def by code_simp
  then have launch: "launch_scheduled [(1, 0, 6)] False world_err = (Inr by_srid, w1)"
    by (simp add: w1_def prod_eq_iff)
  have "fst (finalize_completed_campaigns (0 + 1)
                (mark_promos_updated (set_live_promotions by_srid w1))) = None"
    unfolding by_srid_def w1_def by code_simp
  then have fin: "finalize_completed_campaigns (0 + 1)
                (mark_promos_updated (set_live_promotions by_srid w1)) = (None, w3)"
    by (simp add: w3_def prod_eq_iff)
  note a = make_daily_promotions_reports_errors [OF sched launch fin]
  define v1 where "v1 = snd (launch_scheduled [(1, 0, 6)] False world0)"
  define v3 where "v3 = snd (finalize_completed_campaigns (0 + 1)
                (mark_promos_updated (set_live_promotions by_srid v1)))"
  have sched0: "get_scheduled 0 world0 = ([(1, 0, 6)], [])" by code_simp
  have "fst (launch_scheduled [(1, 0, 6)] False world0) = Inr by_srid"
    unfolding by_srid_def by code_simp
  then have launch0: "launch_scheduled [(1, 0, 6)] False world0 = (Inr by_srid, v1)"
    by (simp add: v1_def prod_eq_iff)
  have "fst (finalize_completed_campaigns (0 + 1)
                (mark_promos_updated (set_live_promotions by_srid v1))) = None"
    unfolding by_srid_def v1_def by code_simp
  then have fin0: "finalize_completed_campaigns (0 + 1)
                (mark_promos_updated (set_live_promotions by_srid v1)) = (None, v3)"
    by (simp add: v3_def prod_eq_iff)
  note b = make_daily_promotions_reports_errors [OF sched0 launch0 fin0]
  have front: "live_adweights (snd (make_daily_promotions 0 False world_err)) FRONT_PAGE
       = Some [(1, 0, 6)]" by code_simp
  have alls: "live_adweights (snd (make_daily_promotions 0 False world_err)) ALL_ADS
       = Some [(1, 0, 6)]" by code_simp
  have stamp: "promos_updated (snd (make_daily_promotions 0 False world_err)) = Some 324"
    by code_simp
  have und: "underdelivered (snd (make_daily_promotions 0 False world_err)) = {1}" by code_simp
  from a b sched sched0 front alls stamp und show ?thesis by simp
qed

end
